theory Spec2Isabelle
  imports Complex_Main
begin

section \<open>JavaScript numbers\<close>

text \<open>
  The component computes with JavaScript numbers, which are IEEE 754 binary64 values. A
  number is modelled as the real it denotes, or one of the three non-finite values; the
  two signed zeros are identified (a divisor \<open>0\<close> is the positive zero that
  \<open>window.innerHeight\<close> can hold). Every arithmetic operation computes the exact real
  and rounds it to the nearest double, ties to even, as the code's operators do. The
  inputs of the handler range over all reals, the doubles among them; the sample inputs
  are doubles.
\<close>

datatype jsnum = Fin real | PosInf | NegInf | NaN

text \<open>
  Rounding: \<open>rne\<close> rounds a real to the nearest integer, ties to even; \<open>ulpExp x\<close> is the
  exponent of the unit in the last place of the doubles around \<open>x\<close> (53 significant bits,
  subnormal below \<open>2 ^ -1022\<close>); \<open>round64\<close> rounds to the nearest double as if the
  exponent had no upper bound, and \<open>js_round\<close> adds the overflow to an infinity.
\<close>

definition rne :: "real \<Rightarrow> int" where
  "rne q =
     (let f = \<lfloor>q\<rfloor>; d = q - of_int f
      in if d < 1 / 2 then f else if 1 / 2 < d then f + 1
         else if even f then f else f + 1)"

definition pow2 :: "int \<Rightarrow> real" where
  "pow2 k = 2 powr of_int k"

definition ulpExp :: "real \<Rightarrow> int" where
  "ulpExp x = max (\<lfloor>log 2 \<bar>x\<bar>\<rfloor> - 52) (- 1074)"

definition round64 :: "real \<Rightarrow> real" where
  "round64 x =
     (if x = 0 then 0 else of_int (rne (x / pow2 (ulpExp x))) * pow2 (ulpExp x))"

definition js_round :: "real \<Rightarrow> jsnum" where
  "js_round x =
     (let y = round64 x
      in if 2 ^ 1024 \<le> \<bar>y\<bar> then (if 0 < y then PosInf else NegInf) else Fin y)"

fun js_div :: "jsnum \<Rightarrow> jsnum \<Rightarrow> jsnum" where
  "js_div (Fin a) (Fin b) =
     (if b = 0 then (if a = 0 then NaN else if 0 < a then PosInf else NegInf)
      else js_round (a / b))"
| "js_div (Fin a) PosInf = Fin 0"
| "js_div (Fin a) NegInf = Fin 0"
| "js_div PosInf (Fin b) = (if 0 \<le> b then PosInf else NegInf)"
| "js_div NegInf (Fin b) = (if 0 \<le> b then NegInf else PosInf)"
| "js_div _ _ = NaN"

fun js_floor :: "jsnum \<Rightarrow> jsnum" where
  "js_floor (Fin a) = Fin (of_int \<lfloor>a\<rfloor>)"
| "js_floor x = x"

fun js_add :: "jsnum \<Rightarrow> jsnum \<Rightarrow> jsnum" where
  "js_add (Fin a) (Fin b) = js_round (a + b)"
| "js_add NaN _ = NaN"
| "js_add _ NaN = NaN"
| "js_add PosInf NegInf = NaN"
| "js_add NegInf PosInf = NaN"
| "js_add PosInf _ = PosInf"
| "js_add NegInf _ = NegInf"
| "js_add (Fin a) y = y"

fun js_neg :: "jsnum \<Rightarrow> jsnum" where
  "js_neg (Fin a) = Fin (- a)"
| "js_neg PosInf = NegInf"
| "js_neg NegInf = PosInf"
| "js_neg NaN = NaN"

definition js_sub :: "jsnum \<Rightarrow> jsnum \<Rightarrow> jsnum" where
  "js_sub x y = js_add x (js_neg y)"

fun js_lt :: "jsnum \<Rightarrow> jsnum \<Rightarrow> bool" where
  "js_lt (Fin a) (Fin b) = (a < b)"
| "js_lt NaN _ = False"
| "js_lt _ NaN = False"
| "js_lt _ NegInf = False"
| "js_lt PosInf _ = False"
| "js_lt NegInf _ = True"
| "js_lt (Fin a) PosInf = True"

definition js_gt :: "jsnum \<Rightarrow> jsnum \<Rightarrow> bool" where
  "js_gt x y = js_lt y x"

definition js_ge :: "jsnum \<Rightarrow> jsnum \<Rightarrow> bool" where
  \<comment> \<open>\<open>x >= y\<close>: false when either side is \<open>NaN\<close>\<close>
  "js_ge x y = (x \<noteq> NaN \<and> y \<noteq> NaN \<and> \<not> js_lt x y)"

definition js_strict_neq :: "jsnum \<Rightarrow> jsnum \<Rightarrow> bool" where
  \<comment> \<open>\<open>x !== y\<close> on numbers: \<open>NaN\<close> differs from everything, itself included\<close>
  "js_strict_neq x y = (x = NaN \<or> y = NaN \<or> x \<noteq> y)"

section \<open>Data model\<close>

datatype element = Element string

record Step =
  id_step :: int
  title :: string
  body :: string
  visual :: "element option"

datatype Direction = Forward | Backward

record ScrollState =
  activeIndex :: jsnum
  isAnimating :: bool
  animationDirection :: Direction

text \<open>
  The component's state lives in a host that also keeps the clock (in milliseconds) and
  the due times of the callbacks registered with \<open>setTimeout\<close>.
\<close>

record Runtime =
  state :: ScrollState
  now :: nat
  pending :: "nat list"

definition initialState :: ScrollState where
  "initialState = \<lparr>activeIndex = Fin 0, isAnimating = False, animationDirection = Forward\<rparr>"

definition mount :: Runtime where
  "mount = \<lparr>state = initialState, now = 0, pending = []\<rparr>"

section \<open>The scroll handler\<close>

text \<open>
  The handler of the effect, as a function of the steps, the two reads from the window
  (\<open>scrollY\<close> and \<open>innerHeight\<close>) and the runtime. The state updates of a transition take
  effect together, and the handler sees the current \<open>activeIndex\<close>: the effect registers
  it anew whenever \<open>activeIndex\<close> changes. \<open>newIndex\<close> is the local variable of that name
  after the two branches.
\<close>

definition threshold :: jsnum where
  \<comment> \<open>the literal \<open>0.6\<close>: the double nearest to it\<close>
  "threshold = js_round (6 / 10)"

definition rawProgress :: "real \<Rightarrow> real \<Rightarrow> jsnum" where
  "rawProgress scrollPosition windowHeight = js_div (Fin scrollPosition) (Fin windowHeight)"

definition sectionIndex :: "real \<Rightarrow> real \<Rightarrow> jsnum" where
  "sectionIndex scrollPosition windowHeight = js_floor (rawProgress scrollPosition windowHeight)"

definition sectionProgress :: "real \<Rightarrow> real \<Rightarrow> jsnum" where
  "sectionProgress scrollPosition windowHeight =
     js_sub (rawProgress scrollPosition windowHeight) (sectionIndex scrollPosition windowHeight)"

definition newIndex :: "Step list \<Rightarrow> real \<Rightarrow> real \<Rightarrow> jsnum \<Rightarrow> jsnum" where
  "newIndex steps scrollPosition windowHeight current =
     (if js_ge (sectionProgress scrollPosition windowHeight) threshold
         \<and> js_lt (sectionIndex scrollPosition windowHeight)
                 (js_sub (Fin (of_nat (length steps))) (Fin 1))
      then js_add (sectionIndex scrollPosition windowHeight) (Fin 1)
      else if js_lt (sectionProgress scrollPosition windowHeight) (js_sub (Fin 1) threshold)
      then sectionIndex scrollPosition windowHeight
      else current)"

definition handleScroll :: "Step list \<Rightarrow> real \<Rightarrow> real \<Rightarrow> Runtime \<Rightarrow> Runtime" where
  "handleScroll steps scrollY innerHeight rt =
     (let current = activeIndex (state rt);
          new = newIndex steps scrollY innerHeight current
      in if js_strict_neq new current
         then rt\<lparr>state := \<lparr>activeIndex = new, isAnimating = True,
                             animationDirection = (if js_gt new current then Forward else Backward)\<rparr>,
                 pending := pending rt @ [now rt + 600]\<rparr>
         else rt)"

text \<open>
  Time passing in the host: the clock advances by \<open>d\<close> milliseconds and every callback
  that is due by then runs, which sets \<open>isAnimating\<close> to false.
\<close>

definition elapse :: "nat \<Rightarrow> Runtime \<Rightarrow> Runtime" where
  "elapse d rt =
     (let t = now rt + d
      in rt\<lparr>state := (if list_ex (\<lambda>due. due \<le> t) (pending rt)
                        then (state rt)\<lparr>isAnimating := False\<rparr> else state rt),
              now := t,
              pending := filter (\<lambda>due. t < due) (pending rt)\<rparr>)"

section \<open>Rendering\<close>

text \<open>
  What the component shows for a state: the remount key, the animation class, the content
  of the fixed visual area and one spacer per step. A step's \<open>visual\<close> is \<open>None\<close> when it
  is absent or falsy. In the default layout an absent text (\<open>None\<close>) renders as an empty
  heading or paragraph.
\<close>

datatype Content = Visual element | TitleBody "string option" "string option"

record View =
  key :: jsnum
  animationClass :: string
  content :: Content
  spacers :: "int list"

definition currentStep :: "Step list \<Rightarrow> jsnum \<Rightarrow> Step option" where
  \<comment> \<open>\<open>steps[activeIndex]\<close>: \<open>undefined\<close> unless the number is an integer within the array\<close>
  "currentStep steps i =
     (case i of
        Fin q \<Rightarrow> (if q = of_int \<lfloor>q\<rfloor> \<and> 0 \<le> q \<and> q < of_nat (length steps)
                  then Some (steps ! nat \<lfloor>q\<rfloor>) else None)
      | _ \<Rightarrow> None)"

definition render :: "Step list \<Rightarrow> ScrollState \<Rightarrow> View" where
  "render steps st =
     \<lparr>key = activeIndex st,
      animationClass =
        (if isAnimating st
         then (if animationDirection st = Forward then ''animate-slide-up-fade-in''
               else ''animate-slide-down-fade-in'')
         else []),
      content =
        (case currentStep steps (activeIndex st) of
           None \<Rightarrow> TitleBody None None
         | Some step \<Rightarrow>
             (case visual step of
                Some v \<Rightarrow> Visual v
              | None \<Rightarrow> TitleBody (Some (title step)) (Some (body step)))),
      spacers = map id_step steps\<rparr>"

section \<open>Sequences of scroll events\<close>

text \<open>
  The runtimes reached after each of a list of scroll offsets, at a fixed viewport height.
  The extra call that the effect makes after a change of \<open>activeIndex\<close> is one more
  element of the list, at the offset the window has then.
\<close>

fun scrollTrace :: "Step list \<Rightarrow> real \<Rightarrow> real list \<Rightarrow> Runtime \<Rightarrow> Runtime list" where
  "scrollTrace steps h [] rt = []"
| "scrollTrace steps h (s # ss) rt =
     handleScroll steps s h rt # scrollTrace steps h ss (handleScroll steps s h rt)"

text \<open>
  A forward scroll in small steps: each offset is at least the one before it and at most
  \<open>d\<close> beyond it.
\<close>

fun forwardBy :: "real \<Rightarrow> real list \<Rightarrow> bool" where
  "forwardBy d (s # s' # ss) = (s \<le> s' \<and> s' - s \<le> d \<and> forwardBy d (s' # ss))"
| "forwardBy d ss = True"

text \<open>
  The index that a forward scroll in small steps has reached at offset \<open>s\<close>: with \<open>r\<close>
  the quotient that the handler computes, the band whose lower boundary is at most \<open>0.4\<close>
  (the double) ahead of \<open>r\<close>, capped at the last step. It is used to describe the traces
  of such scrolls.
\<close>

definition forwardIndex :: "Step list \<Rightarrow> real \<Rightarrow> real \<Rightarrow> int" where
  "forwardIndex steps h s =
     min (int (length steps) - 1) \<lfloor>round64 (s / h) + round64 (2 / 5)\<rfloor>"

subsection \<open>Sample inputs\<close>

definition plainStep :: "int \<Rightarrow> string \<Rightarrow> Step" where
  "plainStep i t = \<lparr>id_step = i, title = t, body = [], visual = None\<rparr>"

definition twoSteps :: "Step list" where
  "twoSteps = [plainStep 0 ''AaaR'', plainStep 1 ''Start'']"

definition threeSteps :: "Step list" where
  "threeSteps = [plainStep 0 ''one'', plainStep 1 ''two'', plainStep 2 ''three'']"

definition sixSteps :: "Step list" where
  "sixSteps = [plainStep 0 ''one'', plainStep 1 ''two'', plainStep 2 ''three'',
               plainStep 3 ''four'', plainStep 4 ''five'', plainStep 5 ''six'']"

section \<open>Properties of the rounding\<close>

subsection \<open>Rounding to an integer, ties to even\<close>

lemma rne_of_int: "rne (of_int n) = n"
  by (simp add: rne_def)

lemma rne_bounds: "\<lfloor>q\<rfloor> \<le> rne q \<and> rne q \<le> \<lfloor>q\<rfloor> + 1"
  by (simp add: rne_def Let_def)

lemma rne_mono:
  assumes "q \<le> q'"
  shows "rne q \<le> rne q'"
proof (cases "\<lfloor>q\<rfloor> = \<lfloor>q'\<rfloor>")
  case True
  have "q - of_int \<lfloor>q\<rfloor> \<le> q' - of_int \<lfloor>q\<rfloor>" using assms by simp
  then show ?thesis unfolding rne_def Let_def True[symmetric] by auto
next
  case False
  have "\<lfloor>q\<rfloor> \<le> \<lfloor>q'\<rfloor>" using assms by (rule floor_mono)
  with False have "\<lfloor>q\<rfloor> + 1 \<le> \<lfloor>q'\<rfloor>" by linarith
  then show ?thesis using rne_bounds[of q] rne_bounds[of q'] by linarith
qed

lemma rne_minus: "rne (- q) = - rne q"
proof (cases "q = of_int \<lfloor>q\<rfloor>")
  case True
  then obtain n where "q = of_int n" ..
  then have "rne (- q) = rne (of_int (- n))" and "rne q = n" by (simp_all add: rne_of_int)
  then show ?thesis by (simp only: rne_of_int)
next
  case False
  define f where "f = \<lfloor>q\<rfloor>"
  define d where "d = q - of_int f"
  have "of_int \<lfloor>q\<rfloor> \<le> q" and "q < of_int \<lfloor>q\<rfloor> + 1" by linarith+
  with False have d: "0 < d" "d < 1" unfolding d_def f_def by linarith+
  have "\<lfloor>- q\<rfloor> = - f - 1"
  proof (rule floor_unique)
    show "of_int (- f - 1) \<le> - q" using d by (simp add: d_def)
    show "- q < of_int (- f - 1) + 1" using d by (simp add: d_def)
  qed
  then have neg: "\<lfloor>- q\<rfloor> = - f - 1" and negd: "- q - of_int \<lfloor>- q\<rfloor> = 1 - d"
    by (simp_all add: d_def)
  have "rne (- q) = (if 1 - d < 1 / 2 then - f - 1 else if 1 / 2 < 1 - d then - f
                     else if even (- f - 1) then - f - 1 else - f)"
    unfolding rne_def Let_def negd unfolding neg by simp
  moreover have "rne q = (if d < 1 / 2 then f else if 1 / 2 < d then f + 1
                     else if even f then f else f + 1)"
    unfolding rne_def Let_def f_def[symmetric] d_def[symmetric] by simp
  ultimately show ?thesis by auto
qed

lemma le_rne: "of_int a \<le> q \<Longrightarrow> a \<le> rne q"
  using rne_mono[of "of_int a" q] by (simp add: rne_of_int)

lemma rne_le: "q \<le> of_int b \<Longrightarrow> rne q \<le> b"
  using rne_mono[of q "of_int b"] by (simp add: rne_of_int)

subsection \<open>Powers of two\<close>

lemma pow2_pos [simp]: "0 < pow2 k"
  by (simp add: pow2_def)

lemma pow2_add: "pow2 (a + b) = pow2 a * pow2 b"
  by (simp add: pow2_def powr_add)

lemma pow2_mono: "a \<le> b \<Longrightarrow> pow2 a \<le> pow2 b"
  by (simp add: pow2_def powr_mono)

lemma pow2_nat: "pow2 (int n) = 2 ^ n"
  by (simp add: pow2_def powr_realpow)

lemma pow2_neg_nat: "pow2 (- int n) = 1 / 2 ^ n"
  by (simp add: pow2_def powr_minus powr_realpow inverse_eq_divide)

lemma pow2_0 [simp]: "pow2 0 = 1"
  by (simp add: pow2_def)

lemma pow2_diff: "pow2 (a - b) = pow2 a / pow2 b"
  by (simp add: pow2_def powr_diff)

lemma pow2_int: "0 \<le> k \<Longrightarrow> pow2 k = of_int (2 ^ nat k)"
  using pow2_nat[of "nat k"] by simp

subsection \<open>The binary exponent\<close>

lemma log2_bracket:
  assumes "x \<noteq> 0"
  shows "pow2 \<lfloor>log 2 \<bar>x\<bar>\<rfloor> \<le> \<bar>x\<bar>" and "\<bar>x\<bar> < pow2 (\<lfloor>log 2 \<bar>x\<bar>\<rfloor> + 1)"
proof -
  have pos: "0 < \<bar>x\<bar>" using assms by simp
  have "of_int \<lfloor>log 2 \<bar>x\<bar>\<rfloor> \<le> log 2 \<bar>x\<bar>" by simp
  then show "pow2 \<lfloor>log 2 \<bar>x\<bar>\<rfloor> \<le> \<bar>x\<bar>"
    unfolding pow2_def using pos by (simp only: le_log_iff[of 2, symmetric] one_less_numeral_iff semiring_norm)
  have "log 2 \<bar>x\<bar> < of_int (\<lfloor>log 2 \<bar>x\<bar>\<rfloor> + 1)" by linarith
  then show "\<bar>x\<bar> < pow2 (\<lfloor>log 2 \<bar>x\<bar>\<rfloor> + 1)"
    unfolding pow2_def using pos by (simp only: log_less_iff[of 2] one_less_numeral_iff semiring_norm)
qed

lemma log2_unique:
  assumes "pow2 e \<le> \<bar>x\<bar>" and "\<bar>x\<bar> < pow2 (e + 1)"
  shows "\<lfloor>log 2 \<bar>x\<bar>\<rfloor> = e"
proof (rule floor_unique)
  have pos: "0 < \<bar>x\<bar>" using assms(1) pow2_pos[of e] by linarith
  show "of_int e \<le> log 2 \<bar>x\<bar>"
    using assms(1) pos by (simp add: le_log_iff pow2_def)
  show "log 2 \<bar>x\<bar> < of_int e + 1"
    using assms(2) pos by (simp add: log_less_iff pow2_def)
qed

lemma pow2_less_cancel: "pow2 a < pow2 b \<Longrightarrow> a < b"
  using pow2_mono[of b a] by (cases "a < b") auto

lemma pow2_nonneg [simp]: "0 \<le> pow2 k"
  using pow2_pos[of k] by linarith

lemma pow2_53: "pow2 (k + 53) = 2 ^ 53 * pow2 k"
  using pow2_add[of 53 k] pow2_nat[of 53] by (simp add: add.commute)

lemma pow2_52: "pow2 (k + 52) = 2 ^ 52 * pow2 k"
  using pow2_add[of 52 k] pow2_nat[of 52] by (simp add: add.commute)

subsection \<open>The exponent of the last place\<close>

lemma ulpExp_minus: "ulpExp (- x) = ulpExp x"
  by (simp add: ulpExp_def)

lemma ulpExp_ge: "- 1074 \<le> ulpExp x"
  by (simp add: ulpExp_def)

lemma ulpExp_upper:
  assumes "x \<noteq> 0"
  shows "\<bar>x\<bar> < pow2 (ulpExp x + 53)"
proof -
  have "\<lfloor>log 2 \<bar>x\<bar>\<rfloor> + 1 \<le> ulpExp x + 53" by (simp add: ulpExp_def)
  then have "pow2 (\<lfloor>log 2 \<bar>x\<bar>\<rfloor> + 1) \<le> pow2 (ulpExp x + 53)" by (rule pow2_mono)
  with log2_bracket(2)[OF assms] show ?thesis by linarith
qed

lemma ulpExp_lower:
  assumes "x \<noteq> 0" and "ulpExp x \<noteq> - 1074"
  shows "pow2 (ulpExp x + 52) \<le> \<bar>x\<bar>"
proof -
  have "ulpExp x = \<lfloor>log 2 \<bar>x\<bar>\<rfloor> - 52" using assms(2) by (simp add: ulpExp_def max_def split: if_splits)
  then have "ulpExp x + 52 = \<lfloor>log 2 \<bar>x\<bar>\<rfloor>" by simp
  with log2_bracket(1)[OF assms(1)] show ?thesis by simp
qed

lemma ulpExp_unique:
  assumes "- 1074 \<le> k" and "x \<noteq> 0" and "\<bar>x\<bar> < pow2 (k + 53)"
    and "k = - 1074 \<or> pow2 (k + 52) \<le> \<bar>x\<bar>"
  shows "ulpExp x = k"
proof (cases "pow2 (k + 52) \<le> \<bar>x\<bar>")
  case True
  have "\<bar>x\<bar> < pow2 (k + 52 + 1)" using assms(3) by (simp add: add.commute add.left_commute)
  from log2_unique[OF True this] show ?thesis using assms(1) by (simp add: ulpExp_def)
next
  case False
  with assms(4) have k: "k = - 1074" by blast
  from False have "\<bar>x\<bar> < pow2 (k + 52)" by simp
  with log2_bracket(1)[OF assms(2)] have "pow2 \<lfloor>log 2 \<bar>x\<bar>\<rfloor> < pow2 (k + 52)" by linarith
  then have "\<lfloor>log 2 \<bar>x\<bar>\<rfloor> < k + 52" by (rule pow2_less_cancel)
  then have "\<lfloor>log 2 \<bar>x\<bar>\<rfloor> - 52 \<le> - 1074" using k by linarith
  then show ?thesis unfolding ulpExp_def k by (rule max_absorb2)
qed

subsection \<open>Rounding to a double\<close>

lemma round64_0 [simp]: "round64 0 = 0"
  by (simp add: round64_def)

lemma round64_minus: "round64 (- x) = - round64 x"
  by (simp add: round64_def ulpExp_minus rne_minus)

lemma round64_pos_bounds:
  assumes "0 < x"
  shows "0 \<le> round64 x" and "round64 x \<le> pow2 (ulpExp x + 53)"
    and "ulpExp x \<noteq> - 1074 \<Longrightarrow> pow2 (ulpExp x + 52) \<le> round64 x"
proof -
  define k where "k = ulpExp x"
  define q where "q = x / pow2 k"
  have x0: "x \<noteq> 0" using assms by simp
  have r: "round64 x = of_int (rne q) * pow2 k"
    using x0 by (simp add: round64_def k_def q_def)
  have "0 \<le> q" using assms by (simp add: q_def)
  then have "0 \<le> rne q" using le_rne[of 0 q] by simp
  then show "0 \<le> round64 x" by (simp add: r)
  have "x < 2 ^ 53 * pow2 k" using ulpExp_upper[OF x0] assms by (simp add: pow2_53 k_def)
  then have "q \<le> of_int (2 ^ 53)" by (simp add: q_def pos_divide_le_eq)
  then have "rne q \<le> 2 ^ 53" by (rule rne_le)
  then have "of_int (rne q) \<le> (2 ^ 53 :: real)" by (metis of_int_le_iff of_int_numeral of_int_power)
  then have "of_int (rne q) * pow2 k \<le> 2 ^ 53 * pow2 k" by (simp add: mult_right_mono)
  then show "round64 x \<le> pow2 (ulpExp x + 53)" by (simp add: r pow2_53 k_def)
  assume "ulpExp x \<noteq> - 1074"
  from ulpExp_lower[OF x0 this] have "2 ^ 52 * pow2 k \<le> x" using assms by (simp add: pow2_52 k_def)
  then have "of_int (2 ^ 52) \<le> q" by (simp add: q_def pos_le_divide_eq)
  then have "2 ^ 52 \<le> rne q" by (rule le_rne)
  then have "(2 ^ 52 :: real) \<le> of_int (rne q)" by (metis of_int_le_iff of_int_numeral of_int_power)
  then have "2 ^ 52 * pow2 k \<le> of_int (rne q) * pow2 k" by (simp add: mult_right_mono)
  then show "pow2 (ulpExp x + 52) \<le> round64 x" by (simp add: r pow2_52 k_def)
qed

lemma round64_mono_pos:
  assumes "0 < x" and "x \<le> y"
  shows "round64 x \<le> round64 y"
proof -
  have y: "0 < y" using assms by simp
  have x0: "x \<noteq> 0" and y0: "y \<noteq> 0" using assms by simp_all
  consider (same) "ulpExp x = ulpExp y" | (less) "ulpExp x < ulpExp y" | (greater) "ulpExp y < ulpExp x"
    by linarith
  then show ?thesis
  proof cases
    case same
    have "x / pow2 (ulpExp y) \<le> y / pow2 (ulpExp y)"
      using assms(2) by (simp add: divide_right_mono)
    then have "rne (x / pow2 (ulpExp y)) \<le> rne (y / pow2 (ulpExp y))" by (rule rne_mono)
    then have "of_int (rne (x / pow2 (ulpExp y))) * pow2 (ulpExp y)
               \<le> of_int (rne (y / pow2 (ulpExp y))) * pow2 (ulpExp y)"
      by (simp add: mult_right_mono)
    then show ?thesis using x0 y0 by (simp add: round64_def same)
  next
    case less
    then have ny: "ulpExp y \<noteq> - 1074" using ulpExp_ge[of x] by linarith
    have "ulpExp x + 53 \<le> ulpExp y + 52" using less by simp
    then have "pow2 (ulpExp x + 53) \<le> pow2 (ulpExp y + 52)" by (rule pow2_mono)
    with round64_pos_bounds(2)[OF assms(1)] round64_pos_bounds(3)[OF y ny]
    show ?thesis by linarith
  next
    case greater
    then have nx: "ulpExp x \<noteq> - 1074" using ulpExp_ge[of y] by linarith
    have "ulpExp y + 53 \<le> ulpExp x + 52" using greater by simp
    then have "pow2 (ulpExp y + 53) \<le> pow2 (ulpExp x + 52)" by (rule pow2_mono)
    with ulpExp_upper[OF y0] ulpExp_lower[OF x0 nx] assms show ?thesis by simp
  qed
qed

lemma round64_mono:
  assumes "x \<le> y"
  shows "round64 x \<le> round64 y"
proof -
  consider (pos) "0 < x" | (neg) "y < 0" | (mid) "x \<le> 0" "0 \<le> y" by linarith
  then show ?thesis
  proof cases
    case pos
    then show ?thesis using assms by (rule round64_mono_pos)
  next
    case neg
    then have "0 < - y" and "- y \<le> - x" using assms by simp_all
    then have "round64 (- y) \<le> round64 (- x)" by (rule round64_mono_pos)
    then show ?thesis by (simp add: round64_minus)
  next
    case mid
    have "round64 x \<le> 0"
    proof (cases "x = 0")
      case False
      with mid have "0 < - x" by simp
      from round64_pos_bounds(1)[OF this] show ?thesis by (simp add: round64_minus)
    qed simp
    moreover have "0 \<le> round64 y"
    proof (cases "y = 0")
      case False
      with mid have "0 < y" by simp
      then show ?thesis by (rule round64_pos_bounds(1))
    qed simp
    ultimately show ?thesis by linarith
  qed
qed

lemma pow2_neq0 [simp]: "pow2 k \<noteq> 0"
  using pow2_pos[of k] by linarith

lemma of_int_pow2_ge:
  assumes "u \<le> k"
  shows "of_int m * pow2 k = of_int (m * 2 ^ nat (k - u)) * pow2 u"
proof -
  have "pow2 k = pow2 (k - u) * pow2 u" using pow2_add[of "k - u" u] by simp
  also have "pow2 (k - u) = of_int (2 ^ nat (k - u))" using assms by (intro pow2_int) simp
  finally show ?thesis by simp
qed

lemma round64_grid_strict:
  assumes "\<bar>m\<bar> < 2 ^ 53" and "- 1074 \<le> k"
  shows "round64 (of_int m * pow2 k) = of_int m * pow2 k"
proof (cases "m = 0")
  case True
  then show ?thesis by simp
next
  case False
  define x where "x = of_int m * pow2 k"
  define u where "u = ulpExp x"
  have x0: "x \<noteq> 0" using False by (simp add: x_def)
  have "\<bar>x\<bar> = of_int \<bar>m\<bar> * pow2 k" by (simp add: x_def abs_mult)
  also have "\<dots> < 2 ^ 53 * pow2 k"
  proof -
    have "real_of_int \<bar>m\<bar> < 2 ^ 53" using assms(1) by (metis of_int_less_iff of_int_numeral of_int_power)
    then show ?thesis by (simp add: mult_strict_right_mono)
  qed
  finally have up: "\<bar>x\<bar> < pow2 (k + 53)" by (simp add: pow2_53)
  with log2_bracket(1)[OF x0] have "pow2 \<lfloor>log 2 \<bar>x\<bar>\<rfloor> < pow2 (k + 53)" by linarith
  then have "\<lfloor>log 2 \<bar>x\<bar>\<rfloor> < k + 53" by (rule pow2_less_cancel)
  then have uk: "u \<le> k" using assms(2) by (simp add: u_def ulpExp_def)
  have xg: "x = of_int (m * 2 ^ nat (k - u)) * pow2 u"
    unfolding x_def by (rule of_int_pow2_ge[OF uk])
  then have "x / pow2 u = of_int (m * 2 ^ nat (k - u))" by simp
  then have "rne (x / pow2 u) = m * 2 ^ nat (k - u)" by (simp only: rne_of_int)
  then have "round64 x = of_int (m * 2 ^ nat (k - u)) * pow2 u"
    using x0 by (simp add: round64_def u_def)
  then have "round64 x = x" by (simp only: xg[symmetric])
  then show ?thesis by (simp only: x_def)
qed

lemma round64_grid:
  assumes "\<bar>m\<bar> \<le> 2 ^ 53" and "- 1074 \<le> k"
  shows "round64 (of_int m * pow2 k) = of_int m * pow2 k"
proof (cases "\<bar>m\<bar> < 2 ^ 53")
  case True
  then show ?thesis using assms(2) by (rule round64_grid_strict)
next
  case False
  with assms(1) have m: "\<bar>m\<bar> = 2 ^ 53" by linarith
  then have "m = 2 ^ 53 \<or> m = - (2 ^ 53)" by (simp add: abs_if split: if_splits)
  then have half: "m = 2 * (m div 2)" and small: "\<bar>m div 2\<bar> < 2 ^ 53" by auto
  have "pow2 (k + 1) = 2 * pow2 k" using pow2_add[of 1 k] pow2_nat[of 1] by (simp add: add.commute)
  then have "of_int m * pow2 k = of_int (m div 2) * pow2 (k + 1)"
    using half by (metis mult.assoc mult.commute of_int_mult of_int_numeral)
  moreover have "round64 (of_int (m div 2) * pow2 (k + 1)) = of_int (m div 2) * pow2 (k + 1)"
    using small assms(2) by (intro round64_grid_strict) simp_all
  ultimately show ?thesis by simp
qed

lemma round64_on_grid: "\<exists>m. round64 x = of_int m * pow2 (ulpExp x) \<and> \<bar>m\<bar> \<le> 2 ^ 53"
proof (cases "x = 0")
  case True
  then show ?thesis by (intro exI[of _ 0]) simp
next
  case False
  define q where "q = x / pow2 (ulpExp x)"
  have "\<bar>x\<bar> < 2 ^ 53 * pow2 (ulpExp x)" using ulpExp_upper[OF False] by (simp add: pow2_53)
  then have "\<bar>q\<bar> < 2 ^ 53" by (simp add: q_def pos_divide_less_eq)
  then have "of_int (- (2 ^ 53)) \<le> q" and "q \<le> of_int (2 ^ 53)" by simp_all
  then have "- (2 ^ 53) \<le> rne q" and "rne q \<le> 2 ^ 53"
    using le_rne[of "- (2 ^ 53)" q] rne_le[of q "2 ^ 53"] by blast+
  then have "\<bar>rne q\<bar> \<le> 2 ^ 53" by linarith
  moreover have "round64 x = of_int (rne q) * pow2 (ulpExp x)"
    using False by (simp add: round64_def q_def)
  ultimately show ?thesis by blast
qed

lemma round64_idem: "round64 (round64 x) = round64 x"
proof -
  obtain m where "round64 x = of_int m * pow2 (ulpExp x)" and "\<bar>m\<bar> \<le> 2 ^ 53"
    using round64_on_grid by blast
  then show ?thesis using round64_grid[of m "ulpExp x"] ulpExp_ge[of x] by simp
qed

lemma round64_of_int: "\<bar>m\<bar> \<le> 2 ^ 53 \<Longrightarrow> round64 (of_int m) = of_int m"
  using round64_grid[of m 0] by simp


lemma round64_scaled:
  assumes "n \<le> 1074" and "2 ^ 52 \<le> \<bar>x\<bar> * 2 ^ n" and "\<bar>x\<bar> * 2 ^ n < 2 ^ 53"
  shows "round64 x = of_int (rne (x * 2 ^ n)) / 2 ^ n"
proof -
  have x0: "x \<noteq> 0" using assms(2) by auto
  have p: "pow2 (- int n) = 1 / 2 ^ n" by (rule pow2_neg_nat)
  have "ulpExp x = - int n"
  proof (rule ulpExp_unique)
    show "- 1074 \<le> - int n" using assms(1) by simp
    show "x \<noteq> 0" by (rule x0)
    show "\<bar>x\<bar> < pow2 (- int n + 53)"
      unfolding pow2_53 p using assms(3) by (simp add: pos_less_divide_eq)
    have "pow2 (- int n + 52) \<le> \<bar>x\<bar>"
      unfolding pow2_52 p using assms(2) by (simp add: pos_divide_le_eq)
    then show "- int n = - 1074 \<or> pow2 (- int n + 52) \<le> \<bar>x\<bar>" by blast
  qed
  then show ?thesis using x0 by (simp add: round64_def p)
qed


lemma round64_frac_exact:
  assumes "0 \<le> round64 x"
  shows "round64 (round64 x - of_int \<lfloor>round64 x\<rfloor>) = round64 x - of_int \<lfloor>round64 x\<rfloor>"
proof -
  define r where "r = round64 x"
  define u where "u = ulpExp x"
  obtain m where r: "r = of_int m * pow2 u" and m: "\<bar>m\<bar> \<le> 2 ^ 53"
    using round64_on_grid[of x] unfolding r_def u_def by blast
  have u: "- 1074 \<le> u" unfolding u_def by (rule ulpExp_ge)
  have m0: "0 \<le> m"
  proof (rule ccontr)
    assume "\<not> 0 \<le> m"
    then have "of_int m * pow2 u < 0" by (simp add: mult_neg_pos)
    then show False using assms r r_def by simp
  qed
  have i0: "0 \<le> \<lfloor>r\<rfloor>" using assms by (simp add: r_def)
  show ?thesis
  proof (cases "0 \<le> u")
    case True
    have "r = of_int (m * 2 ^ nat u)" using True by (simp add: r pow2_int)
    then have "r - of_int \<lfloor>r\<rfloor> = 0" by (metis diff_self floor_of_int)
    then show ?thesis by (simp add: r_def)
  next
    case False
    define t where "t = nat (- u)"
    have p: "pow2 u = 1 / 2 ^ t" using False pow2_neg_nat[of t] by (simp add: t_def)
    define m' where "m' = m - \<lfloor>r\<rfloor> * 2 ^ t"
    have eq: "r - of_int \<lfloor>r\<rfloor> = of_int m' * pow2 u"
      by (simp add: r p m'_def field_simps)
    have "0 \<le> r - of_int \<lfloor>r\<rfloor>" by simp
    then have "0 \<le> of_int m' * pow2 u" by (simp only: eq)
    then have "0 \<le> m'" using pow2_pos[of u] by (simp add: zero_le_mult_iff)
    moreover have "m' \<le> m" using i0 by (simp add: m'_def)
    ultimately have "\<bar>m'\<bar> \<le> 2 ^ 53" using m by linarith
    from round64_grid[OF this u] show ?thesis by (simp only: eq r_def[symmetric])
  qed
qed

lemma round64_frac_small:
  assumes "round64 x \<noteq> of_int \<lfloor>round64 x\<rfloor>"
  shows "\<bar>round64 x\<bar> \<le> 2 ^ 52"
proof -
  define u where "u = ulpExp x"
  obtain m where r: "round64 x = of_int m * pow2 u" and m: "\<bar>m\<bar> \<le> 2 ^ 53"
    using round64_on_grid[of x] unfolding u_def by blast
  have "u < 0"
  proof (rule ccontr)
    assume "\<not> u < 0"
    then have "round64 x = of_int (m * 2 ^ nat u)" by (simp add: r pow2_int)
    then show False using assms by (metis floor_of_int)
  qed
  then have "pow2 u \<le> pow2 (- 1)" by (intro pow2_mono) simp
  also have "pow2 (- 1) = 1 / 2" using pow2_neg_nat[of 1] by simp
  finally have pu: "pow2 u \<le> 1 / 2" .
  have "real_of_int \<bar>m\<bar> \<le> 2 ^ 53" using m by (metis of_int_le_iff of_int_numeral of_int_power)
  then have "of_int \<bar>m\<bar> * pow2 u \<le> 2 ^ 53 * (1 / 2)"
    using pu by (intro mult_mono) simp_all
  then show ?thesis by (simp add: r abs_mult)
qed

subsection \<open>Overflow\<close>

lemma round64_pow2_1023: "round64 (2 ^ 1023) = 2 ^ 1023"
  using round64_grid[of 1 1023] pow2_nat[of 1023] by simp

lemma js_round_finite:
  assumes "\<bar>x\<bar> \<le> 2 ^ 1023"
  shows "js_round x = Fin (round64 x)"
proof -
  define B :: real where "B = 2 ^ 1023"
  have rB: "round64 B = B" unfolding B_def by (rule round64_pow2_1023)
  have x: "x \<le> B" "- B \<le> x" using assms unfolding B_def by linarith+
  have "round64 x \<le> round64 B" using x(1) by (rule round64_mono)
  moreover have "round64 (- B) \<le> round64 x" using x(2) by (rule round64_mono)
  ultimately have "\<bar>round64 x\<bar> \<le> B"
    unfolding round64_minus rB by linarith
  moreover have "B < 2 ^ 1024" unfolding B_def by simp
  ultimately have "\<not> 2 ^ 1024 \<le> \<bar>round64 x\<bar>" by linarith
  then show ?thesis by (simp only: js_round_def Let_def if_False)
qed

lemma js_round_Fin: "js_round x = Fin r \<Longrightarrow> r = round64 x"
  by (simp add: js_round_def Let_def split: if_splits)

lemma js_round_not_NaN [simp]: "js_round x \<noteq> NaN"
  by (simp add: js_round_def Let_def)

lemma js_round_of_int: "\<bar>m\<bar> \<le> 2 ^ 53 \<Longrightarrow> js_round (of_int m) = Fin (of_int m)"
proof -
  assume m: "\<bar>m\<bar> \<le> 2 ^ 53"
  then have "real_of_int \<bar>m\<bar> \<le> 2 ^ 53" by (metis of_int_le_iff of_int_numeral of_int_power)
  also have "\<dots> \<le> (2 ^ 1023 :: real)" by simp
  finally have "\<bar>real_of_int m\<bar> \<le> 2 ^ 1023" by simp
  then show ?thesis by (simp add: js_round_finite round64_of_int[OF m])
qed

lemma js_round_0 [simp]: "js_round 0 = Fin 0"
  using js_round_of_int[of 0] by simp

subsection \<open>The two thresholds\<close>

lemma round64_eval:
  assumes "n \<le> 1074" and "2 ^ 52 \<le> \<bar>x\<bar> * 2 ^ n" and "\<bar>x\<bar> * 2 ^ n < 2 ^ 53"
    and "rne (x * 2 ^ n) = m"
  shows "round64 x = of_int m / 2 ^ n"
  using round64_scaled[OF assms(1,2,3)] assms(4) by simp

lemma double_06: "round64 (3 / 5) = 5404319552844595 / 9007199254740992"
  using round64_eval[of 53 "3 / 5" 5404319552844595] by (simp add: rne_def)

lemma double_04: "round64 (2 / 5) = 3602879701896397 / 9007199254740992"
  using round64_eval[of 54 "2 / 5" 7205759403792794] by (simp add: rne_def)

lemma double_04_06: "1 - round64 (3 / 5) = round64 (2 / 5)"
  by (simp add: double_04 double_06)

lemma threshold_value: "threshold = Fin (round64 (3 / 5))"
proof -
  have "\<bar>6 / 10 :: real\<bar> \<le> 2 ^ 1023" by simp
  from js_round_finite[OF this] show ?thesis by (simp add: threshold_def)
qed

lemma lower_threshold_value: "js_sub (Fin 1) threshold = Fin (round64 (2 / 5))"
proof -
  have "js_sub (Fin 1) threshold = js_round (1 - round64 (3 / 5))"
    by (simp add: threshold_value js_sub_def)
  also have "\<dots> = js_round (round64 (2 / 5))" by (simp only: double_04_06)
  also have "\<dots> = Fin (round64 (round64 (2 / 5)))"
    by (rule js_round_finite) (simp add: double_04)
  finally show ?thesis by (simp only: round64_idem)
qed

section \<open>The handler on doubles\<close>

lemma rawProgress_cases:
  "rawProgress s h =
     (if h = 0 then (if s = 0 then NaN else if 0 < s then PosInf else NegInf)
      else js_round (s / h))"
  by (simp add: rawProgress_def)

lemma rawProgress_Fin:
  assumes "rawProgress s h = Fin r"
  shows "h \<noteq> 0" and "r = round64 (s / h)"
proof -
  show "h \<noteq> 0" using assms by (auto simp: rawProgress_cases split: if_splits)
  then show "r = round64 (s / h)" using assms by (simp add: rawProgress_cases js_round_Fin)
qed

lemma rawProgress_small:
  assumes "h \<noteq> 0" and "\<bar>s / h\<bar> \<le> 2 ^ 1023"
  shows "rawProgress s h = Fin (round64 (s / h))"
  using assms by (simp add: rawProgress_cases js_round_finite)

lemma section_finite:
  assumes "rawProgress s h = Fin r"
  shows "sectionIndex s h = Fin (of_int \<lfloor>r\<rfloor>)"
    and "sectionProgress s h = Fin (round64 (r - of_int \<lfloor>r\<rfloor>))"
proof -
  show i: "sectionIndex s h = Fin (of_int \<lfloor>r\<rfloor>)" by (simp add: sectionIndex_def assms)
  have "0 \<le> r - of_int \<lfloor>r\<rfloor>" and "r - of_int \<lfloor>r\<rfloor> < 1" by linarith+
  then have "\<bar>r - of_int \<lfloor>r\<rfloor>\<bar> \<le> 1" by simp
  also have "\<dots> \<le> (2 ^ 1023 :: real)" by simp
  finally have "js_round (r - of_int \<lfloor>r\<rfloor>) = Fin (round64 (r - of_int \<lfloor>r\<rfloor>))"
    by (rule js_round_finite)
  then show "sectionProgress s h = Fin (round64 (r - of_int \<lfloor>r\<rfloor>))"
    by (simp add: sectionProgress_def i assms js_sub_def)
qed

lemma section_nonfinite:
  assumes "\<forall>r. rawProgress s h \<noteq> Fin r"
  shows "sectionIndex s h = rawProgress s h" and "sectionProgress s h = NaN"
proof -
  from assms have c: "rawProgress s h = PosInf \<or> rawProgress s h = NegInf \<or> rawProgress s h = NaN"
    by (cases "rawProgress s h") auto
  then show "sectionIndex s h = rawProgress s h" by (auto simp: sectionIndex_def)
  with c show "sectionProgress s h = NaN" by (auto simp: sectionProgress_def js_sub_def)
qed

lemma newIndex_nonfinite:
  assumes "\<forall>r. rawProgress s h \<noteq> Fin r"
  shows "newIndex steps s h current = current"
  by (simp add: newIndex_def section_nonfinite(2)[OF assms] js_ge_def)

lemma successor_exact:
  assumes "rawProgress s h = Fin r" and "0 < round64 (r - of_int \<lfloor>r\<rfloor>)"
  shows "js_add (Fin (of_int \<lfloor>r\<rfloor>)) (Fin 1) = Fin (of_int (\<lfloor>r\<rfloor> + 1))"
proof -
  have r: "r = round64 (s / h)" using assms(1) by (rule rawProgress_Fin)
  have "r \<noteq> of_int \<lfloor>r\<rfloor>" using assms(2) by auto
  then have "\<bar>r\<bar> \<le> 2 ^ 52" unfolding r by (rule round64_frac_small)
  then have up: "r \<le> of_int (2 ^ 52)" and lo: "of_int (- (2 ^ 52)) \<le> r" by simp_all
  have "\<lfloor>r\<rfloor> \<le> \<lfloor>of_int (2 ^ 52) :: real\<rfloor>" using up by (rule floor_mono)
  moreover have "\<lfloor>of_int (- (2 ^ 52)) :: real\<rfloor> \<le> \<lfloor>r\<rfloor>" using lo by (rule floor_mono)
  ultimately have "\<lfloor>r\<rfloor> \<le> \<lfloor>of_int (2 ^ 52) :: real\<rfloor>"
    and "\<lfloor>of_int (- (2 ^ 52)) :: real\<rfloor> \<le> \<lfloor>r\<rfloor>" by blast+
  then have "\<lfloor>r\<rfloor> \<le> 2 ^ 52" and "- (2 ^ 52) \<le> \<lfloor>r\<rfloor>"
    by (simp_all only: floor_of_int)
  moreover have "(2::int) ^ 53 = 2 * 2 ^ 52" and "(1::int) \<le> 2 ^ 52" by simp_all
  ultimately have "\<bar>\<lfloor>r\<rfloor> + 1\<bar> \<le> 2 ^ 53" by linarith
  from js_round_of_int[OF this] show ?thesis by simp
qed

lemma last_index_exact:
  assumes "length steps < 2 ^ 32"
  shows "js_sub (Fin (of_nat (length steps))) (Fin 1) = Fin (of_int (int (length steps) - 1))"
proof -
  have "\<bar>int (length steps) - 1\<bar> \<le> 2 ^ 53" using assms by simp
  from js_round_of_int[OF this] show ?thesis by (simp add: js_sub_def)
qed

lemma newIndex_finite:
  assumes "rawProgress s h = Fin r" and "length steps < 2 ^ 32"
  shows "newIndex steps s h current =
     (if round64 (3 / 5) \<le> round64 (r - of_int \<lfloor>r\<rfloor>) \<and> \<lfloor>r\<rfloor> < int (length steps) - 1
      then Fin (of_int (\<lfloor>r\<rfloor> + 1))
      else if round64 (r - of_int \<lfloor>r\<rfloor>) < round64 (2 / 5) then Fin (of_int \<lfloor>r\<rfloor>)
      else current)"
proof -
  have pos: "0 < round64 (3 / 5)" by (simp add: double_06)
  have succ: "round64 (3 / 5) \<le> round64 (r - of_int \<lfloor>r\<rfloor>) \<Longrightarrow>
              js_add (Fin (of_int \<lfloor>r\<rfloor>)) (Fin 1) = Fin (of_int (\<lfloor>r\<rfloor> + 1))"
    using successor_exact[OF assms(1)] pos by linarith
  show ?thesis
    unfolding newIndex_def lower_threshold_value last_index_exact[OF assms(2)]
    unfolding section_finite[OF assms(1)] threshold_value
    using succ by (auto simp: js_ge_def not_less simp del: of_int_add)
qed

lemma newIndex_cases:
  "newIndex steps s h current = current
   \<or> (\<exists>k. newIndex steps s h current = Fin (of_int k))"
proof (cases "\<exists>r. rawProgress s h = Fin r")
  case False
  then show ?thesis by (simp add: newIndex_nonfinite)
next
  case True
  then obtain r where r: "rawProgress s h = Fin r" by blast
  have "0 < round64 (3 / 5)" by (simp add: double_06)
  then have "round64 (3 / 5) \<le> round64 (r - of_int \<lfloor>r\<rfloor>) \<Longrightarrow>
             js_add (Fin (of_int \<lfloor>r\<rfloor>)) (Fin 1) = Fin (of_int (\<lfloor>r\<rfloor> + 1))"
    using successor_exact[OF r] by linarith
  then show ?thesis
    unfolding newIndex_def lower_threshold_value
    unfolding section_finite[OF r] threshold_value
    by (auto simp: js_ge_def not_less simp del: of_int_add)
qed

lemma handleScroll_activeIndex:
  "activeIndex (state (handleScroll steps s h rt)) = newIndex steps s h (activeIndex (state rt))"
  by (simp add: handleScroll_def Let_def js_strict_neq_def)

lemma handleScroll_unchanged:
  "newIndex steps s h (activeIndex (state rt)) = activeIndex (state rt) \<Longrightarrow>
   activeIndex (state rt) \<noteq> NaN \<Longrightarrow> handleScroll steps s h rt = rt"
  by (simp add: handleScroll_def Let_def js_strict_neq_def)

lemma newIndex_idem: "newIndex steps s h (newIndex steps s h c) = newIndex steps s h c"
  by (simp add: newIndex_def)

lemma newIndex_not_NaN: "c \<noteq> NaN \<Longrightarrow> newIndex steps s h c \<noteq> NaN"
  using newIndex_cases[of steps s h c] by auto

lemma handleScroll_transition:
  "newIndex steps s h (activeIndex (state rt)) \<noteq> activeIndex (state rt) \<Longrightarrow>
   isAnimating (state (handleScroll steps s h rt))
   \<and> pending (handleScroll steps s h rt) = pending rt @ [now rt + 600]
   \<and> now (handleScroll steps s h rt) = now rt"
  by (simp add: handleScroll_def Let_def js_strict_neq_def)

lemma elapse_fires:
  "due \<in> set (pending rt) \<Longrightarrow> due \<le> now rt + d \<Longrightarrow> \<not> isAnimating (state (elapse d rt))"
  by (auto simp: elapse_def Let_def list_ex_iff)

lemma elapse_quiet:
  "\<forall>due \<in> set (pending rt). now rt + d < due \<Longrightarrow> state (elapse d rt) = state rt"
  by (auto simp: elapse_def Let_def list_ex_iff)

lemma handleScroll_integer_index:
  assumes "activeIndex (state rt) = Fin (of_int k)"
  shows "\<exists>k'. activeIndex (state (handleScroll steps s h rt)) = Fin (of_int k')"
  using newIndex_cases[of steps s h "Fin (of_int k)"] assms
  by (auto simp: handleScroll_activeIndex)

lemma elapse_activeIndex: "activeIndex (state (elapse d rt)) = activeIndex (state rt)"
  by (simp add: elapse_def Let_def)

text \<open>Evaluation of one recomputation from the rounded quotient, for a non-negative one.\<close>

lemma newIndex_eval:
  assumes "h \<noteq> 0" and "round64 (s / h) = r" and "0 \<le> r" and "r \<le> 2 ^ 53"
    and "length steps < 2 ^ 32"
  shows "newIndex steps s h current =
     (if 5404319552844595 / 9007199254740992 \<le> r - of_int \<lfloor>r\<rfloor> \<and> \<lfloor>r\<rfloor> < int (length steps) - 1
      then Fin (of_int (\<lfloor>r\<rfloor> + 1))
      else if r - of_int \<lfloor>r\<rfloor> < 3602879701896397 / 9007199254740992 then Fin (of_int \<lfloor>r\<rfloor>)
      else current)"
proof -
  have "round64 (s / h) \<le> 2 ^ 1023" using assms(2,4) by simp
  have raw: "rawProgress s h = Fin r"
  proof -
    have "\<bar>round64 (s / h)\<bar> < 2 ^ 1024" using assms(2,3,4) by simp
    then show ?thesis using assms(1,2) by (simp add: rawProgress_cases js_round_def Let_def)
  qed
  have "round64 (r - of_int \<lfloor>r\<rfloor>) = r - of_int \<lfloor>r\<rfloor>"
    using round64_frac_exact[of "s / h"] assms(2,3) by simp
  then show ?thesis
    unfolding newIndex_finite[OF raw assms(5)] double_06 double_04 by simp
qed

lemma section_eval:
  assumes "h \<noteq> 0" and "round64 (s / h) = r" and "0 \<le> r" and "r \<le> 2 ^ 53"
  shows "sectionIndex s h = Fin (of_int \<lfloor>r\<rfloor>)"
    and "sectionProgress s h = Fin (r - of_int \<lfloor>r\<rfloor>)"
proof -
  have "\<bar>round64 (s / h)\<bar> < 2 ^ 1024" using assms(2,3,4) by simp
  then have raw: "rawProgress s h = Fin r"
    using assms(1,2) by (simp add: rawProgress_cases js_round_def Let_def)
  have "round64 (r - of_int \<lfloor>r\<rfloor>) = r - of_int \<lfloor>r\<rfloor>"
    using round64_frac_exact[of "s / h"] assms(2,3) by simp
  then show "sectionIndex s h = Fin (of_int \<lfloor>r\<rfloor>)"
    and "sectionProgress s h = Fin (r - of_int \<lfloor>r\<rfloor>)"
    using section_finite[OF raw] by simp_all
qed

section \<open>Sample quotients\<close>

text \<open>
  The doubles nearest to the quotients used in the examples below, and the handler's
  decision at them.
\<close>

lemma round64_13_20: "round64 (13 / 20) = 5854679515581645 / 9007199254740992"
  using round64_eval[of 53 "13 / 20" 5854679515581645] by (simp add: rne_def)

lemma round64_7_20: "round64 (7 / 20) = 3152519739159347 / 9007199254740992"
  using round64_eval[of 54 "7 / 20" 6305039478318694] by (simp add: rne_def)

lemma round64_9_20: "round64 (9 / 20) = 8106479329266893 / 18014398509481984"
  using round64_eval[of 54 "9 / 20" 8106479329266893] by (simp add: rne_def)

lemma round64_7_5: "round64 (7 / 5) = 3152519739159347 / 2251799813685248"
  using round64_eval[of 52 "7 / 5" 6305039478318694] by (simp add: rne_def)

lemma round64_23_5: "round64 (23 / 5) = 2589569785738035 / 562949953421312"
  using round64_eval[of 50 "23 / 5" 5179139571476070] by (simp add: rne_def)

lemma ni_650: "newIndex twoSteps 650 1000 c = Fin 1"
  using newIndex_eval[of 1000 650 "5854679515581645 / 9007199254740992" twoSteps c]
  by (simp add: round64_13_20 twoSteps_def)

lemma ni_350: "newIndex twoSteps 350 1000 c = Fin 0"
  using newIndex_eval[of 1000 350 "3152519739159347 / 9007199254740992" twoSteps c]
  by (simp add: round64_7_20 twoSteps_def)

lemma ni_450: "newIndex twoSteps 450 1000 c = c"
  using newIndex_eval[of 1000 450 "8106479329266893 / 18014398509481984" twoSteps c]
  by (simp add: round64_9_20 twoSteps_def)

lemma ni_1400: "newIndex twoSteps 1400 1000 c = Fin 1"
  using newIndex_eval[of 1000 1400 "3152519739159347 / 2251799813685248" twoSteps c]
  by (simp add: round64_7_5 twoSteps_def)

lemma ni_4600: "newIndex sixSteps 4600 1000 c = c"
  using newIndex_eval[of 1000 4600 "2589569785738035 / 562949953421312" sixSteps c]
  by (simp add: round64_23_5 sixSteps_def)

lemma ni_5000: "newIndex twoSteps 5000 1000 c = Fin 5"
  using newIndex_eval[of 1000 5000 5 twoSteps c] round64_of_int[of 5]
  by (simp add: twoSteps_def)

lemma round64_8_5: "round64 (8 / 5) = 3602879701896397 / 2251799813685248"
  using round64_eval[of 52 "8 / 5" 7205759403792794] by (simp add: rne_def)

lemma round64_13_10: "round64 (13 / 10) = 5854679515581645 / 4503599627370496"
  using round64_eval[of 52 "13 / 10" 5854679515581645] by (simp add: rne_def)

lemma round64_33_20: "round64 (33 / 20) = 3715469692580659 / 2251799813685248"
  using round64_eval[of 52 "33 / 20" 7430939385161318] by (simp add: rne_def)

lemma round64_17_10: "round64 (17 / 10) = 7656119366529843 / 4503599627370496"
  using round64_eval[of 52 "17 / 10" 7656119366529843] by (simp add: rne_def)

lemma ni3_650: "newIndex threeSteps 650 1000 c = Fin 1"
  using newIndex_eval[of 1000 650 "5854679515581645 / 9007199254740992" threeSteps c]
  by (simp add: round64_13_20 threeSteps_def)

lemma ni3_1600: "newIndex threeSteps 1600 1000 c = Fin 2"
  using newIndex_eval[of 1000 1600 "3602879701896397 / 2251799813685248" threeSteps c]
  by (simp add: round64_8_5 threeSteps_def)

lemma ni3_1300: "newIndex threeSteps 1300 1000 c = Fin 1"
  using newIndex_eval[of 1000 1300 "5854679515581645 / 4503599627370496" threeSteps c]
  by (simp add: round64_13_10 threeSteps_def)

lemma ni3_1650: "newIndex threeSteps 1650 1000 c = Fin 2"
  using newIndex_eval[of 1000 1650 "3715469692580659 / 2251799813685248" threeSteps c]
  by (simp add: round64_33_20 threeSteps_def)

lemma ni3_1700: "newIndex threeSteps 1700 1000 c = Fin 2"
  using newIndex_eval[of 1000 1700 "7656119366529843 / 4503599627370496" threeSteps c]
  by (simp add: round64_17_10 threeSteps_def)

lemmas run_defs =
  handleScroll_def Let_def js_strict_neq_def js_gt_def mount_def initialState_def elapse_def

lemma ni6_650: "newIndex sixSteps 650 1000 c = Fin 1"
  using newIndex_eval[of 1000 650 "5854679515581645 / 9007199254740992" sixSteps c]
  by (simp add: round64_13_20 sixSteps_def)

lemma round64_11_20: "round64 (11 / 20) = 2476979795053773 / 4503599627370496"
  using round64_eval[of 53 "11 / 20" 4953959590107546] by (simp add: rne_def)

lemma round64_29_20: "round64 (29 / 20) = 6530219459687219 / 4503599627370496"
  using round64_eval[of 52 "29 / 20" 6530219459687219] by (simp add: rne_def)

lemma round64_1999_1000: "round64 (1999 / 1000) = 4501347827556811 / 2251799813685248"
  using round64_eval[of 52 "1999 / 1000" 9002695655113622] by (simp add: rne_def)

lemma round64_3_10: "round64 (3 / 10) = 5404319552844595 / 18014398509481984"
  using round64_eval[of 54 "3 / 10" 5404319552844595] by (simp add: rne_def)

lemma round64_1 [simp]: "round64 1 = 1"
  using round64_of_int[of 1] by simp

lemma round64_2 [simp]: "round64 2 = 2"
  using round64_of_int[of 2] by simp

lemma ni_0: "newIndex twoSteps 0 1000 c = Fin 0"
  using newIndex_eval[of 1000 0 0 twoSteps c] by (simp add: twoSteps_def)

lemma ni_550: "newIndex twoSteps 550 1000 c = c"
  using newIndex_eval[of 1000 550 "2476979795053773 / 4503599627370496" twoSteps c]
  by (simp add: round64_11_20 twoSteps_def)

lemma ni_1450: "newIndex twoSteps 1450 1000 c = c"
  using newIndex_eval[of 1000 1450 "6530219459687219 / 4503599627370496" twoSteps c]
  by (simp add: round64_29_20 twoSteps_def)

lemma ni_1999: "newIndex twoSteps 1999 1000 c = c"
  using newIndex_eval[of 1000 1999 "4501347827556811 / 2251799813685248" twoSteps c]
  by (simp add: round64_1999_1000 twoSteps_def)

lemma ni3_0: "newIndex threeSteps 0 1000 c = Fin 0"
  using newIndex_eval[of 1000 0 0 threeSteps c] by (simp add: threeSteps_def)

lemma ni3_300: "newIndex threeSteps 300 1000 c = Fin 0"
  using newIndex_eval[of 1000 300 "5404319552844595 / 18014398509481984" threeSteps c]
  by (simp add: round64_3_10 threeSteps_def)

lemma ni3_600: "newIndex threeSteps 600 1000 c = Fin 1"
  using newIndex_eval[of 1000 600 "5404319552844595 / 9007199254740992" threeSteps c]
  by (simp add: double_06 threeSteps_def)

lemma ni3_1000: "newIndex threeSteps 1000 1000 c = Fin 1"
  using newIndex_eval[of 1000 1000 1 threeSteps c] by (simp add: threeSteps_def)

lemma ni3_1400: "newIndex threeSteps 1400 1000 c = Fin 1"
  using newIndex_eval[of 1000 1400 "3152519739159347 / 2251799813685248" threeSteps c]
  by (simp add: round64_7_5 threeSteps_def)

lemma ni3_2000: "newIndex threeSteps 2000 1000 c = Fin 2"
  using newIndex_eval[of 1000 2000 2 threeSteps c] by (simp add: threeSteps_def)

section \<open>The state on mount\<close>

text \<open>
  C10: on mount, before any recomputation has caused a transition, the state is fully
  defined: \<open>activeIndex\<close> is 0, \<open>isAnimating\<close> is false and the direction already holds
  \<open>forward\<close>; no timer is pending.
\<close>

theorem mount_state:
  "activeIndex (state mount) = Fin 0 \<and> isAnimating (state mount) = False
   \<and> animationDirection (state mount) = Forward \<and> pending mount = []"
  by (simp add: mount_def initialState_def)

section \<open>The hysteresis decision\<close>

text \<open>
  C2: on every recomputation, \<open>1 - threshold\<close> is the double \<open>0.4\<close>. When the quotient
  \<open>rawProgress\<close> is a number \<open>r\<close>, \<open>sectionIndex\<close> is its floor and \<open>sectionProgress\<close> the
  rounded rest; at \<open>sectionProgress \<ge> 0.6\<close> (the double) below the last band the new
  \<open>activeIndex\<close> is \<open>sectionIndex + 1\<close>; otherwise at \<open>sectionProgress < 0.4\<close> (the double)
  it is \<open>sectionIndex\<close>; otherwise, in the dead zone between the two, the current
  \<open>activeIndex\<close>, whatever it is, is retained. When the quotient is not a number (viewport
  height 0, or overflow) both comparisons fail and the index is retained as well. The
  number of steps is below \<open>2 ^ 32\<close>, as the length of every JavaScript array is.
\<close>

theorem hysteresis_decision:
  assumes "length steps < 2 ^ 32"
  shows "js_sub (Fin 1) threshold = Fin (round64 (2 / 5))
     \<and> (\<forall>r. rawProgress s h = Fin r \<longrightarrow>
            sectionIndex s h = Fin (of_int \<lfloor>r\<rfloor>)
          \<and> sectionProgress s h = Fin (round64 (r - of_int \<lfloor>r\<rfloor>))
          \<and> activeIndex (state (handleScroll steps s h rt)) =
              (if round64 (3 / 5) \<le> round64 (r - of_int \<lfloor>r\<rfloor>)
                  \<and> \<lfloor>r\<rfloor> < int (length steps) - 1
               then Fin (of_int (\<lfloor>r\<rfloor> + 1))
               else if round64 (r - of_int \<lfloor>r\<rfloor>) < round64 (2 / 5) then Fin (of_int \<lfloor>r\<rfloor>)
               else activeIndex (state rt)))
     \<and> ((\<forall>r. rawProgress s h \<noteq> Fin r) \<longrightarrow>
            activeIndex (state (handleScroll steps s h rt)) = activeIndex (state rt))"
proof (intro conjI allI impI)
  show "js_sub (Fin 1) threshold = Fin (round64 (2 / 5))" by (rule lower_threshold_value)
next
  fix r assume r: "rawProgress s h = Fin r"
  show "sectionIndex s h = Fin (of_int \<lfloor>r\<rfloor>)" by (rule section_finite(1)[OF r])
  show "sectionProgress s h = Fin (round64 (r - of_int \<lfloor>r\<rfloor>))"
    by (rule section_finite(2)[OF r])
  show "activeIndex (state (handleScroll steps s h rt)) =
              (if round64 (3 / 5) \<le> round64 (r - of_int \<lfloor>r\<rfloor>)
                  \<and> \<lfloor>r\<rfloor> < int (length steps) - 1
               then Fin (of_int (\<lfloor>r\<rfloor> + 1))
               else if round64 (r - of_int \<lfloor>r\<rfloor>) < round64 (2 / 5) then Fin (of_int \<lfloor>r\<rfloor>)
               else activeIndex (state rt))"
    unfolding handleScroll_activeIndex by (rule newIndex_finite[OF r assms])
next
  assume "\<forall>r. rawProgress s h \<noteq> Fin r"
  then show "activeIndex (state (handleScroll steps s h rt)) = activeIndex (state rt)"
    by (simp add: handleScroll_activeIndex newIndex_nonfinite)
qed

text \<open>
  Witness of C2, with two steps and a viewport height of 1000: offset 650 gives 1; from
  there 350 gives 0 and 450 retains 1; offset 1400, whose \<open>sectionProgress\<close> is the double
  \<open>0.3999999999999999\<close>, gives 1; a viewport height of 0 retains the index.
\<close>

theorem hysteresis_decision_witness:
  "length twoSteps < 2 ^ 32
   \<and> activeIndex (state (handleScroll twoSteps 650 1000 mount)) = Fin 1
   \<and> activeIndex (state (handleScroll twoSteps 350 1000 (handleScroll twoSteps 650 1000 mount)))
       = Fin 0
   \<and> activeIndex (state (handleScroll twoSteps 450 1000 (handleScroll twoSteps 650 1000 mount)))
       = activeIndex (state (handleScroll twoSteps 650 1000 mount))
   \<and> activeIndex (state (handleScroll twoSteps 1400 1000 mount)) = Fin 1
   \<and> activeIndex (state (handleScroll twoSteps 1 0 mount)) = activeIndex (state mount)"
proof -
  have len: "length twoSteps < 2 ^ 32" by (simp add: twoSteps_def)
  note base = hysteresis_decision[OF len, THEN conjunct2]
  note fin = base[THEN conjunct1, rule_format, THEN conjunct2, THEN conjunct2]
  have raw: "rawProgress 650 1000 = Fin (round64 (13 / 20))"
    "rawProgress 350 1000 = Fin (round64 (7 / 20))"
    "rawProgress 450 1000 = Fin (round64 (9 / 20))"
    "rawProgress 1400 1000 = Fin (round64 (7 / 5))"
    using rawProgress_small[of 1000 650] rawProgress_small[of 1000 350]
      rawProgress_small[of 1000 450] rawProgress_small[of 1000 1400] by simp_all
  have a: "activeIndex (state (handleScroll twoSteps 650 1000 mount)) = Fin 1"
    using round64_frac_exact[of "13 / 20"] fin[OF raw(1), of mount]
    by (simp add: round64_13_20 double_06 double_04 twoSteps_def)
  have b: "activeIndex (state (handleScroll twoSteps 350 1000
             (handleScroll twoSteps 650 1000 mount))) = Fin 0"
    using round64_frac_exact[of "7 / 20"] fin[OF raw(2), of "handleScroll twoSteps 650 1000 mount"]
    by (simp add: round64_7_20 double_06 double_04 twoSteps_def)
  have c: "activeIndex (state (handleScroll twoSteps 450 1000
             (handleScroll twoSteps 650 1000 mount)))
           = activeIndex (state (handleScroll twoSteps 650 1000 mount))"
    using round64_frac_exact[of "9 / 20"] fin[OF raw(3), of "handleScroll twoSteps 650 1000 mount"]
    by (simp add: round64_9_20 double_06 double_04 twoSteps_def)
  have d: "activeIndex (state (handleScroll twoSteps 1400 1000 mount)) = Fin 1"
    using round64_frac_exact[of "7 / 5"] fin[OF raw(4), of mount]
    by (simp add: round64_7_5 double_06 double_04 twoSteps_def)
  have "\<forall>r. rawProgress 1 0 \<noteq> Fin r" by (simp add: rawProgress_cases)
  with base[THEN conjunct2, of 1 0 mount]
  have e: "activeIndex (state (handleScroll twoSteps 1 0 mount)) = activeIndex (state mount)"
    by blast
  show ?thesis using len a b c d e by blast
qed

section \<open>Overscroll above the top\<close>





section \<open>An empty list of steps\<close>

text \<open>
  C8: with an empty list of steps, indexing the current step yields nothing, whatever the
  index, and the component renders no step content: no visual, no title and no body (and
  no spacer).
\<close>

theorem empty_steps_render:
  "currentStep [] i = None \<and> content (render [] st) = TitleBody None None
   \<and> spacers (render [] st) = []"
  by (auto simp: render_def currentStep_def split: jsnum.splits)

section \<open>Validity of the index\<close>

text \<open>
  C1 asks that the index stay within the steps at every offset. The code does not: with
  two steps and a viewport height of 1000, the offset 5000 gives the section index 5, the
  second branch stores it as \<open>activeIndex\<close> without the bound that the first branch has,
  and indexing the steps with it yields nothing.
\<close>

theorem far_offset_out_of_range:
  "length twoSteps = 2 \<and> sectionIndex 5000 1000 = Fin 5
   \<and> activeIndex (state (handleScroll twoSteps 5000 1000 mount)) = Fin 5
   \<and> currentStep twoSteps (activeIndex (state (handleScroll twoSteps 5000 1000 mount))) = None"
proof -
  have "rawProgress 5000 1000 = Fin (round64 5)" using rawProgress_small[of 1000 5000] by simp
  then have "rawProgress 5000 1000 = Fin 5" using round64_of_int[of 5] by simp
  then have i: "sectionIndex 5000 1000 = Fin 5" using section_finite(1)[of 5000 1000 5] by simp
  have a: "activeIndex (state (handleScroll twoSteps 5000 1000 mount)) = Fin 5"
    by (simp add: handleScroll_activeIndex ni_5000)
  show ?thesis unfolding a i by (simp add: currentStep_def twoSteps_def)
qed

section \<open>Dependence on the starting state\<close>

text \<open>
  C3, as stated, fails: at the same offset 450, viewport height 1000 and two steps, the
  recomputation gives 0 from the mount state and 1 from the state reached at offset 650.
\<close>

theorem same_offset_differs:
  "activeIndex (state (handleScroll twoSteps 450 1000 mount)) = Fin 0
   \<and> activeIndex (state (handleScroll twoSteps 450 1000 (handleScroll twoSteps 650 1000 mount)))
       = Fin 1"
  by (simp add: handleScroll_activeIndex ni_450 ni_650 mount_def initialState_def)

text \<open>
  C3, amended: running the recomputation again on its own result, with the same offset,
  viewport height and steps, changes nothing (the index of the starting state is a
  number, as it is in every state reached from the mount state). Its resulting
  \<open>activeIndex\<close> is a function of the offset, the viewport height, the number of
  steps and the current \<open>activeIndex\<close>. Where the code's comparison
  \<open>sectionProgress < 1 - threshold\<close> holds, or \<open>sectionProgress >= threshold\<close> holds
  together with \<open>sectionIndex < steps.length - 1\<close>, the result does not depend on the
  starting state; elsewhere each invocation retains its own current \<open>activeIndex\<close>.
\<close>

theorem recomputation_idempotent:
  assumes "activeIndex (state rt) \<noteq> NaN"
  shows "handleScroll steps s h (handleScroll steps s h rt) = handleScroll steps s h rt
     \<and> (length steps' = length steps \<and> activeIndex (state rt') = activeIndex (state rt)
          \<longrightarrow> activeIndex (state (handleScroll steps' s h rt'))
              = activeIndex (state (handleScroll steps s h rt)))
     \<and> (js_lt (sectionProgress s h) (js_sub (Fin 1) threshold)
          \<or> js_ge (sectionProgress s h) threshold
            \<and> js_lt (sectionIndex s h) (js_sub (Fin (of_nat (length steps))) (Fin 1))
          \<longrightarrow> activeIndex (state (handleScroll steps s h rt'))
              = activeIndex (state (handleScroll steps s h rt)))
     \<and> (\<not> js_lt (sectionProgress s h) (js_sub (Fin 1) threshold)
          \<and> \<not> (js_ge (sectionProgress s h) threshold
                \<and> js_lt (sectionIndex s h) (js_sub (Fin (of_nat (length steps))) (Fin 1)))
          \<longrightarrow> activeIndex (state (handleScroll steps s h rt')) = activeIndex (state rt'))"
proof -
  let ?rt = "handleScroll steps s h rt"
  have "activeIndex (state ?rt) \<noteq> NaN"
    using assms by (simp add: handleScroll_activeIndex newIndex_not_NaN)
  moreover have "newIndex steps s h (activeIndex (state ?rt)) = activeIndex (state ?rt)"
    by (simp add: handleScroll_activeIndex newIndex_idem)
  ultimately have "handleScroll steps s h ?rt = ?rt"
    by (simp add: handleScroll_unchanged)
  moreover have "length steps' = length steps \<and> activeIndex (state rt') = activeIndex (state rt)
          \<longrightarrow> activeIndex (state (handleScroll steps' s h rt'))
              = activeIndex (state (handleScroll steps s h rt))"
    by (simp add: handleScroll_activeIndex newIndex_def)
  moreover have "js_lt (sectionProgress s h) (js_sub (Fin 1) threshold)
          \<or> js_ge (sectionProgress s h) threshold
            \<and> js_lt (sectionIndex s h) (js_sub (Fin (of_nat (length steps))) (Fin 1))
          \<longrightarrow> activeIndex (state (handleScroll steps s h rt'))
              = activeIndex (state (handleScroll steps s h rt))"
    by (auto simp: handleScroll_activeIndex newIndex_def)
  moreover have "\<not> js_lt (sectionProgress s h) (js_sub (Fin 1) threshold)
          \<and> \<not> (js_ge (sectionProgress s h) threshold
                \<and> js_lt (sectionIndex s h) (js_sub (Fin (of_nat (length steps))) (Fin 1)))
          \<longrightarrow> activeIndex (state (handleScroll steps s h rt')) = activeIndex (state rt')"
    by (auto simp: handleScroll_activeIndex newIndex_def)
  ultimately show ?thesis by blast
qed

text \<open>
  Witness of the amended C3: at offset 650 the second run is the first; at offset 450
  two runs from the same index, with other steps of the same number and at a later
  time, agree; at offset 350 the
  results from the mount state and from the state reached at 650 agree; at offset 4600
  with six steps, where \<open>sectionProgress\<close> is the double \<open>0.5999999999999996\<close>, the index
  reached at 650 is retained.
\<close>

theorem recomputation_idempotent_witness:
  "activeIndex (state mount) \<noteq> NaN
   \<and> handleScroll twoSteps 650 1000 (handleScroll twoSteps 650 1000 mount)
       = handleScroll twoSteps 650 1000 mount
   \<and> activeIndex (state (handleScroll (rev twoSteps) 450 1000 (elapse 100 mount)))
       = activeIndex (state (handleScroll twoSteps 450 1000 mount))
   \<and> activeIndex (state (handleScroll twoSteps 350 1000 (handleScroll twoSteps 650 1000 mount)))
       = activeIndex (state (handleScroll twoSteps 350 1000 mount))
   \<and> activeIndex (state (handleScroll sixSteps 4600 1000 (handleScroll sixSteps 650 1000 mount)))
       = activeIndex (state (handleScroll sixSteps 650 1000 mount))"
proof -
  have a: "activeIndex (state mount) \<noteq> NaN"
    by (simp add: mount_def initialState_def)
  have low: "js_sub (Fin 1) threshold = Fin (3602879701896397 / 9007199254740992)"
    by (simp add: lower_threshold_value double_04)
  have high: "threshold = Fin (5404319552844595 / 9007199254740992)"
    by (simp add: threshold_value double_06)
  have p350: "sectionProgress 350 1000 = Fin (3152519739159347 / 9007199254740992)"
    using section_eval(2)[of 1000 350 "3152519739159347 / 9007199254740992"]
    by (simp add: round64_7_20)
  have p4600: "sectionProgress 4600 1000 = Fin (337769972052787 / 562949953421312)"
    using section_eval(2)[of 1000 4600 "2589569785738035 / 562949953421312"]
    by (simp add: round64_23_5)
  have settles: "js_lt (sectionProgress 350 1000) (js_sub (Fin 1) threshold)
     \<or> js_ge (sectionProgress 350 1000) threshold
       \<and> js_lt (sectionIndex 350 1000) (js_sub (Fin (of_nat (length twoSteps))) (Fin 1))"
    unfolding p350 low by simp
  have dead: "\<not> js_lt (sectionProgress 4600 1000) (js_sub (Fin 1) threshold)
     \<and> \<not> (js_ge (sectionProgress 4600 1000) threshold
          \<and> js_lt (sectionIndex 4600 1000) (js_sub (Fin (of_nat (length sixSteps))) (Fin 1)))"
    unfolding p4600 low by (simp add: high js_ge_def)
  have same: "length (rev twoSteps) = length twoSteps
     \<and> activeIndex (state (elapse 100 mount)) = activeIndex (state mount)"
    by (simp add: elapse_def mount_def)
  note once = recomputation_idempotent[where rt = mount and steps = twoSteps and s = 650
        and h = 1000 and rt' = mount and steps' = twoSteps, OF a]
  note func = recomputation_idempotent[where rt = mount and steps = twoSteps and s = 450
        and h = 1000 and rt' = "elapse 100 mount" and steps' = "rev twoSteps", OF a]
  note indep = recomputation_idempotent[where rt = mount and steps = twoSteps and s = 350
        and h = 1000 and rt' = "handleScroll twoSteps 650 1000 mount" and steps' = twoSteps,
        OF a]
  note keeps = recomputation_idempotent[where rt = mount and steps = sixSteps and s = 4600
        and h = 1000 and rt' = "handleScroll sixSteps 650 1000 mount" and steps' = sixSteps,
        OF a]
  have "handleScroll twoSteps 650 1000 (handleScroll twoSteps 650 1000 mount)
       = handleScroll twoSteps 650 1000 mount"
    using once by (rule conjunct1)
  moreover have "activeIndex (state (handleScroll (rev twoSteps) 450 1000 (elapse 100 mount)))
       = activeIndex (state (handleScroll twoSteps 450 1000 mount))"
    using func[THEN conjunct2, THEN conjunct1, THEN mp, OF same] .
  moreover have "activeIndex (state (handleScroll twoSteps 350 1000
        (handleScroll twoSteps 650 1000 mount)))
       = activeIndex (state (handleScroll twoSteps 350 1000 mount))"
    using indep[THEN conjunct2, THEN conjunct2, THEN conjunct1, THEN mp, OF settles] .
  moreover have "activeIndex (state (handleScroll sixSteps 4600 1000
        (handleScroll sixSteps 650 1000 mount)))
       = activeIndex (state (handleScroll sixSteps 650 1000 mount))"
    using keeps[THEN conjunct2, THEN conjunct2, THEN conjunct2, THEN mp, OF dead] .
  ultimately show ?thesis using a by blast
qed

section \<open>Direction of a transition\<close>

text \<open>
  C5: when a recomputation changes \<open>activeIndex\<close> from \<open>a\<close> to \<open>b\<close>, the direction
  becomes \<open>forward\<close> if \<open>b\<close> is greater than \<open>a\<close> and \<open>backward\<close> otherwise; from 1 to 2
  it is \<open>forward\<close>, from 2 to 1 \<open>backward\<close>.
\<close>

theorem transition_direction:
  assumes "activeIndex (state rt) = Fin a"
    and "activeIndex (state (handleScroll steps s h rt)) = Fin b"
    and "a \<noteq> b"
  shows "animationDirection (state (handleScroll steps s h rt))
         = (if a < b then Forward else Backward)"
proof -
  have "newIndex steps s h (Fin a) = Fin b"
    using assms(1,2) by (simp add: handleScroll_activeIndex)
  then show ?thesis
    using assms(1,3) by (simp add: handleScroll_def Let_def js_strict_neq_def js_gt_def)
qed

theorem transition_direction_witness:
  "activeIndex (state (handleScroll threeSteps 650 1000 mount)) = Fin 1
   \<and> activeIndex (state (handleScroll threeSteps 1600 1000 (handleScroll threeSteps 650 1000 mount))) = Fin 2
   \<and> animationDirection (state (handleScroll threeSteps 1600 1000 (handleScroll threeSteps 650 1000 mount))) = Forward
   \<and> activeIndex (state (handleScroll threeSteps 1300 1000
        (handleScroll threeSteps 1600 1000 (handleScroll threeSteps 650 1000 mount)))) = Fin 1
   \<and> animationDirection (state (handleScroll threeSteps 1300 1000
        (handleScroll threeSteps 1600 1000 (handleScroll threeSteps 650 1000 mount)))) = Backward"
proof -
  let ?r1 = "handleScroll threeSteps 650 1000 mount"
  let ?r2 = "handleScroll threeSteps 1600 1000 ?r1"
  let ?r3 = "handleScroll threeSteps 1300 1000 ?r2"
  have a1: "activeIndex (state ?r1) = Fin 1" by (simp add: handleScroll_activeIndex ni3_650)
  have a2: "activeIndex (state ?r2) = Fin 2" by (simp add: handleScroll_activeIndex ni3_1600)
  have a3: "activeIndex (state ?r3) = Fin 1" by (simp add: handleScroll_activeIndex ni3_1300)
  have "animationDirection (state ?r2) = Forward"
    using transition_direction[OF a1 a2] by simp
  moreover have "animationDirection (state ?r3) = Backward"
    using transition_direction[OF a2 a3] by simp
  ultimately show ?thesis using a1 a2 a3 by simp
qed

section \<open>The animation flag\<close>

text \<open>
  C6: after a recomputation that changes \<open>activeIndex\<close>, \<open>isAnimating\<close> is true and a
  callback is due 600 ms later; once 600 ms or more have passed, \<open>isAnimating\<close> is false,
  and when no earlier callback is pending it stays true until then. A recomputation
  that changes nothing leaves the whole runtime, \<open>isAnimating\<close> included, as it was.
  The starting runtime is arbitrary, so callbacks of earlier transitions may be pending.
\<close>

theorem animation_flag:
  assumes "activeIndex (state rt) \<noteq> NaN"
  shows "(activeIndex (state (handleScroll steps s h rt)) \<noteq> activeIndex (state rt) \<longrightarrow>
            isAnimating (state (handleScroll steps s h rt))
          \<and> pending (handleScroll steps s h rt) = pending rt @ [now rt + 600]
          \<and> (\<forall>d\<ge>600. \<not> isAnimating (state (elapse d (handleScroll steps s h rt))))
          \<and> (pending rt = [] \<longrightarrow>
               (\<forall>d<600. isAnimating (state (elapse d (handleScroll steps s h rt))))))
       \<and> (activeIndex (state (handleScroll steps s h rt)) = activeIndex (state rt) \<longrightarrow>
            handleScroll steps s h rt = rt)"
proof (intro conjI impI)
  let ?rt = "handleScroll steps s h rt"
  assume "activeIndex (state ?rt) = activeIndex (state rt)"
  then show "?rt = rt"
    using assms by (simp add: handleScroll_activeIndex handleScroll_unchanged)
next
  let ?rt = "handleScroll steps s h rt"
  assume "activeIndex (state ?rt) \<noteq> activeIndex (state rt)"
  then have tr: "newIndex steps s h (activeIndex (state rt)) \<noteq> activeIndex (state rt)"
    by (simp add: handleScroll_activeIndex)
  note facts = handleScroll_transition[OF tr]
  show "isAnimating (state ?rt)" using facts by simp
  show "pending ?rt = pending rt @ [now rt + 600]" using facts by simp
  show "\<forall>d\<ge>600. \<not> isAnimating (state (elapse d ?rt))"
  proof (intro allI impI)
    fix d :: nat assume "600 \<le> d"
    then show "\<not> isAnimating (state (elapse d ?rt))"
      using facts by (intro elapse_fires[of "now rt + 600"]) simp_all
  qed
  assume "pending rt = []"
  then show "\<forall>d<600. isAnimating (state (elapse d ?rt))"
    using facts by (simp add: elapse_quiet)
qed

theorem animation_flag_witness:
  "pending (elapse 300 (handleScroll threeSteps 650 1000 mount)) = [600]
   \<and> isAnimating (state (handleScroll threeSteps 1650 1000
        (elapse 300 (handleScroll threeSteps 650 1000 mount))))
   \<and> \<not> isAnimating (state (elapse 300 (handleScroll threeSteps 1650 1000
        (elapse 300 (handleScroll threeSteps 650 1000 mount)))))
   \<and> \<not> isAnimating (state (elapse 600 (handleScroll threeSteps 1650 1000
        (elapse 300 (handleScroll threeSteps 650 1000 mount)))))
   \<and> handleScroll threeSteps 1700 1000 (handleScroll threeSteps 1650 1000
        (elapse 300 (handleScroll threeSteps 650 1000 mount)))
       = handleScroll threeSteps 1650 1000 (elapse 300 (handleScroll threeSteps 650 1000 mount))"
proof -
  let ?r1 = "elapse 300 (handleScroll threeSteps 650 1000 mount)"
  let ?r2 = "handleScroll threeSteps 1650 1000 ?r1"
  have r1: "?r1 = \<lparr>state = \<lparr>activeIndex = Fin 1, isAnimating = True,
              animationDirection = Forward\<rparr>, now = 300, pending = [600]\<rparr>"
    by (simp add: run_defs ni3_650)
  have r2: "?r2 = \<lparr>state = \<lparr>activeIndex = Fin 2, isAnimating = True,
              animationDirection = Forward\<rparr>, now = 300, pending = [600, 900]\<rparr>"
    unfolding r1 by (simp add: run_defs ni3_1650)
  have early: "\<not> isAnimating (state (elapse 300 ?r2))"
    unfolding r2 by (simp add: elapse_def)
  have "activeIndex (state ?r1) \<noteq> NaN" unfolding r1 by simp
  from animation_flag[OF this, of threeSteps 1650 1000]
  have "isAnimating (state ?r2)" and "\<not> isAnimating (state (elapse 600 ?r2))"
    unfolding r2 by (simp_all add: r1)
  moreover have "activeIndex (state ?r2) \<noteq> NaN" unfolding r2 by simp
  from animation_flag[OF this, of threeSteps 1700 1000]
  have "handleScroll threeSteps 1700 1000 ?r2 = ?r2"
    unfolding r2 by (simp add: handleScroll_activeIndex ni3_1700)
  ultimately show ?thesis using early r1 by simp
qed

section \<open>A viewport height of zero\<close>

text \<open>
  C7, as stated, fails: nothing guards the division. With a viewport height of 0 the
  quotient, and the section index computed from it, are \<open>Infinity\<close>, \<open>-Infinity\<close> or
  \<open>NaN\<close>.
\<close>

theorem zero_height_nonfinite:
  "rawProgress 1 0 = PosInf \<and> sectionIndex 1 0 = PosInf
   \<and> rawProgress (- 1) 0 = NegInf \<and> sectionIndex (- 1) 0 = NegInf
   \<and> rawProgress 0 0 = NaN \<and> sectionIndex 0 0 = NaN"
  by (simp add: rawProgress_def sectionIndex_def)

text \<open>
  C7, amended: with a viewport height of 0 and any offset, \<open>rawProgress\<close> is \<open>NaN\<close>,
  \<open>Infinity\<close> or \<open>-Infinity\<close> (for a zero, positive or negative offset), \<open>sectionIndex\<close>
  is the same non-finite value, \<open>sectionProgress\<close> is \<open>NaN\<close>, both comparisons are false,
  and the recomputation retains the current \<open>activeIndex\<close>; from a state whose index is
  a number the whole runtime is unchanged.
\<close>

theorem zero_height_retains:
  "rawProgress s 0 = (if s = 0 then NaN else if 0 < s then PosInf else NegInf)
   \<and> sectionIndex s 0 = rawProgress s 0
   \<and> sectionProgress s 0 = NaN
   \<and> \<not> js_ge (sectionProgress s 0) threshold
   \<and> \<not> js_lt (sectionProgress s 0) (js_sub (Fin 1) threshold)
   \<and> activeIndex (state (handleScroll steps s 0 rt)) = activeIndex (state rt)
   \<and> (activeIndex (state rt) \<noteq> NaN \<longrightarrow> handleScroll steps s 0 rt = rt)"
proof -
  have nf: "\<forall>r. rawProgress s 0 \<noteq> Fin r" by (simp add: rawProgress_cases)
  note sec = section_nonfinite[OF nf]
  have keep: "newIndex steps s 0 (activeIndex (state rt)) = activeIndex (state rt)"
    by (rule newIndex_nonfinite[OF nf])
  show ?thesis
    by (simp add: rawProgress_cases sec js_ge_def handleScroll_activeIndex keep
        handleScroll_unchanged)
qed

theorem zero_height_retains_witness:
  "activeIndex (state (handleScroll twoSteps 650 1000 mount)) = Fin 1
   \<and> handleScroll twoSteps 1 0 (handleScroll twoSteps 650 1000 mount)
       = handleScroll twoSteps 650 1000 mount"
proof -
  have a: "activeIndex (state (handleScroll twoSteps 650 1000 mount)) = Fin 1"
    by (simp add: handleScroll_activeIndex ni_650)
  then show ?thesis
    using zero_height_retains[of 1 twoSteps "handleScroll twoSteps 650 1000 mount"] by simp
qed

section \<open>A forward scroll through all steps\<close>

lemma js_round_eq_Fin: "js_round x = Fin r \<longleftrightarrow> r = round64 x \<and> \<bar>round64 x\<bar> < 2 ^ 1024"
  by (auto simp: js_round_def Let_def)

lemma rawProgress_eq_Fin:
  assumes "h \<noteq> 0"
  shows "rawProgress s h = Fin r \<longleftrightarrow> r = round64 (s / h) \<and> \<bar>round64 (s / h)\<bar> < 2 ^ 1024"
  using assms by (simp add: rawProgress_cases js_round_eq_Fin)

lemma forwardIndex_zero: "steps \<noteq> [] \<Longrightarrow> forwardIndex steps h 0 = 0"
  by (simp add: forwardIndex_def double_04)

text \<open>The floors met in one step of a forward scroll, for the quotients \<open>r' \<le> r\<close>.\<close>

lemma floor_shift_low:
  fixes r c :: real
  assumes "0 \<le> c" and "r - of_int \<lfloor>r\<rfloor> < 1 - c"
  shows "\<lfloor>r + c\<rfloor> = \<lfloor>r\<rfloor>"
proof (rule floor_unique)
  show "of_int \<lfloor>r\<rfloor> \<le> r + c" using of_int_floor_le[of r] assms(1) by linarith
  show "r + c < of_int \<lfloor>r\<rfloor> + 1" using assms(2) by linarith
qed

lemma floor_shift_high:
  fixes r c :: real
  assumes "c < 1" and "1 - c \<le> r - of_int \<lfloor>r\<rfloor>"
  shows "\<lfloor>r + c\<rfloor> = \<lfloor>r\<rfloor> + 1"
proof (rule floor_unique)
  show "of_int (\<lfloor>r\<rfloor> + 1) \<le> r + c"
    unfolding of_int_add of_int_1 using assms(2) by linarith
  show "r + c < of_int (\<lfloor>r\<rfloor> + 1) + 1"
    unfolding of_int_add of_int_1 using real_of_int_floor_add_one_gt[of r] assms(1) by linarith
qed

lemma floor_shift_prev:
  fixes r r' c :: real
  assumes "r' \<le> r" and "r - r' \<le> c"
  shows "\<lfloor>r\<rfloor> \<le> \<lfloor>r' + c\<rfloor>" and "\<lfloor>r' + c\<rfloor> \<le> \<lfloor>r + c\<rfloor>"
proof -
  show "\<lfloor>r\<rfloor> \<le> \<lfloor>r' + c\<rfloor>" using assms by (intro floor_mono) linarith
  show "\<lfloor>r' + c\<rfloor> \<le> \<lfloor>r + c\<rfloor>" using assms by (intro floor_mono) linarith
qed

lemma step_index_arith:
  fixes i j j' n :: int and p lo hi :: real
  assumes "i \<le> j'" and "j' \<le> j" and "i < n"
    and "p < hi \<longrightarrow> j = i" and "hi \<le> p \<longrightarrow> j = i + 1" and "lo \<le> hi"
  shows "(if hi \<le> p \<and> i < n - 1 then i + 1
          else if p < lo then i else min (n - 1) j') = min (n - 1) j"
    and "min (n - 1) j' \<le> min (n - 1) j"
    and "min (n - 1) j \<le> min (n - 1) j' + 1"
    and "min (n - 1) j \<noteq> min (n - 1) j' \<longleftrightarrow>
           i = min (n - 1) j' \<and> hi \<le> p \<and> min (n - 1) j' \<noteq> n - 1"
proof -
  consider (low) "p < hi" "j = i" "j' = i" | (high) "hi \<le> p" "j = i + 1" "j' = i \<or> j' = i + 1"
  proof (cases "p < hi")
    case True
    with assms have "j = i" and "j' = i" by auto
    with True show ?thesis by (rule low)
  next
    case False
    with assms have "j = i + 1" and "j' = i \<or> j' = i + 1" by auto
    with False show ?thesis by (intro high) auto
  qed
  then show "(if hi \<le> p \<and> i < n - 1 then i + 1
          else if p < lo then i else min (n - 1) j') = min (n - 1) j"
    using assms(3,6) by cases (auto simp: min_def)
  show "min (n - 1) j' \<le> min (n - 1) j" using assms(2) by (simp add: min_def)
  show "min (n - 1) j \<le> min (n - 1) j' + 1"
    using assms by (cases "p < hi") (auto simp: min_def)
  show "min (n - 1) j \<noteq> min (n - 1) j' \<longleftrightarrow>
           i = min (n - 1) j' \<and> hi \<le> p \<and> min (n - 1) j' \<noteq> n - 1"
    using assms by (cases "p < hi") (auto simp: min_def)
qed

text \<open>One event of a forward scroll in small steps, on the quotients the handler computes.\<close>

lemma forward_step:
  fixes steps h s s'
  defines "r \<equiv> round64 (s / h)" and "r' \<equiv> round64 (s' / h)"
  assumes "h \<noteq> 0" and "0 \<le> r'" and "r' \<le> r" and "r - r' \<le> round64 (2 / 5)"
    and "r < of_nat (length steps)" and "length steps < 2 ^ 32"
  shows "newIndex steps s h (Fin (of_int (forwardIndex steps h s')))
         = Fin (of_int (forwardIndex steps h s))"
    and "forwardIndex steps h s' \<le> forwardIndex steps h s"
    and "forwardIndex steps h s \<le> forwardIndex steps h s' + 1"
    and "forwardIndex steps h s \<noteq> forwardIndex steps h s' \<longleftrightarrow>
           \<lfloor>r\<rfloor> = forwardIndex steps h s' \<and> round64 (3 / 5) \<le> r - of_int \<lfloor>r\<rfloor>
           \<and> forwardIndex steps h s' \<noteq> int (length steps) - 1"
proof -
  define c where "c = round64 (2 / 5)"
  have c: "0 \<le> c" "c < 1" "1 - c = round64 (3 / 5)" "c \<le> round64 (3 / 5)"
    by (simp_all add: c_def double_04 double_06)
  have r0: "0 \<le> r" using assms(4,5) by linarith
  have "real (length steps) < real (2 ^ 32)" using assms(8) by (simp only: of_nat_less_iff)
  then have "real (length steps) < 2 ^ 32" by simp
  then have "r < 2 ^ 32" using assms(7) by linarith
  then have "\<bar>round64 (s / h)\<bar> < 2 ^ 1024" using r0 by (simp add: r_def)
  then have raw: "rawProgress s h = Fin r"
    using assms(3) by (simp add: rawProgress_eq_Fin r_def)
  have exact: "round64 (r - of_int \<lfloor>r\<rfloor>) = r - of_int \<lfloor>r\<rfloor>"
    unfolding r_def using r0 unfolding r_def by (rule round64_frac_exact)
  have band: "\<lfloor>r\<rfloor> < int (length steps)" using assms(7) by (simp add: floor_less_iff)
  note prev = floor_shift_prev[OF assms(5), of c, OF assms(6)[folded c_def]]
  have low: "r - of_int \<lfloor>r\<rfloor> < round64 (3 / 5) \<longrightarrow> \<lfloor>r + c\<rfloor> = \<lfloor>r\<rfloor>"
    using floor_shift_low[of c r] c by auto
  have high: "round64 (3 / 5) \<le> r - of_int \<lfloor>r\<rfloor> \<longrightarrow> \<lfloor>r + c\<rfloor> = \<lfloor>r\<rfloor> + 1"
    using floor_shift_high[of c r] c by auto
  note arith = step_index_arith[OF prev band low high c(4)]
  show "forwardIndex steps h s' \<le> forwardIndex steps h s"
    unfolding forwardIndex_def r_def[symmetric] r'_def[symmetric] c_def[symmetric]
    by (rule arith(2))
  show "forwardIndex steps h s \<le> forwardIndex steps h s' + 1"
    unfolding forwardIndex_def r_def[symmetric] r'_def[symmetric] c_def[symmetric]
    by (rule arith(3))
  show "forwardIndex steps h s \<noteq> forwardIndex steps h s' \<longleftrightarrow>
           \<lfloor>r\<rfloor> = forwardIndex steps h s' \<and> round64 (3 / 5) \<le> r - of_int \<lfloor>r\<rfloor>
           \<and> forwardIndex steps h s' \<noteq> int (length steps) - 1"
    unfolding forwardIndex_def r_def[symmetric] r'_def[symmetric] c_def[symmetric]
    by (rule arith(4))
  have "newIndex steps s h (Fin (of_int (forwardIndex steps h s')))
        = Fin (of_int (if round64 (3 / 5) \<le> r - of_int \<lfloor>r\<rfloor> \<and> \<lfloor>r\<rfloor> < int (length steps) - 1
                       then \<lfloor>r\<rfloor> + 1
                       else if r - of_int \<lfloor>r\<rfloor> < c then \<lfloor>r\<rfloor>
                       else min (int (length steps) - 1) \<lfloor>r' + c\<rfloor>))"
    unfolding newIndex_finite[OF raw assms(8)] exact forwardIndex_def r'_def[symmetric]
      c_def[symmetric]
    by (simp only: if_distrib[of "\<lambda>z. Fin (of_int z)"])
  then show "newIndex steps s h (Fin (of_int (forwardIndex steps h s')))
         = Fin (of_int (forwardIndex steps h s))"
    unfolding arith(1) by (simp only: forwardIndex_def r_def c_def)
qed

lemma forwardBy_nth:
  "forwardBy d xs \<Longrightarrow> Suc j < length xs \<Longrightarrow> xs ! j \<le> xs ! Suc j \<and> xs ! Suc j - xs ! j \<le> d"
proof (induction d xs arbitrary: j rule: forwardBy.induct)
  case (1 d s s' ss)
  then show ?case by (cases j) simp_all
qed simp_all

lemma forwardBy_ge_head: "forwardBy d (x # xs) \<Longrightarrow> \<forall>y \<in> set xs. x \<le> y"
proof (induction xs arbitrary: x)
  case (Cons y ys)
  then have "x \<le> y" and "forwardBy d (y # ys)" by simp_all
  with Cons.IH[of y] show ?case by force
qed simp

lemma forward_trace:
  assumes "h \<noteq> 0" and "length steps < 2 ^ 32"
  shows "forwardBy (round64 (2 / 5)) (map (\<lambda>s. round64 (s / h)) (s0 # ss)) \<Longrightarrow>
         0 \<le> round64 (s0 / h) \<Longrightarrow>
         \<forall>s \<in> set ss. round64 (s / h) < of_nat (length steps) \<Longrightarrow>
         activeIndex (state rt) = Fin (of_int (forwardIndex steps h s0)) \<Longrightarrow>
         map (activeIndex \<circ> state) (scrollTrace steps h ss rt)
         = map (\<lambda>s. Fin (of_int (forwardIndex steps h s))) ss"
proof (induction ss arbitrary: s0 rt)
  case Nil
  show ?case by simp
next
  case (Cons s ss)
  from Cons.prems(1) have le: "round64 (s0 / h) \<le> round64 (s / h)"
    and near: "round64 (s / h) - round64 (s0 / h) \<le> round64 (2 / 5)"
    and rest: "forwardBy (round64 (2 / 5)) (map (\<lambda>s. round64 (s / h)) (s # ss))" by simp_all
  from Cons.prems(3) have band: "round64 (s / h) < of_nat (length steps)"
    and bands: "\<forall>x \<in> set ss. round64 (x / h) < of_nat (length steps)" by simp_all
  have pos: "0 \<le> round64 (s / h)" using le Cons.prems(2) by linarith
  have now: "activeIndex (state (handleScroll steps s h rt))
             = Fin (of_int (forwardIndex steps h s))"
    unfolding handleScroll_activeIndex Cons.prems(4)
    by (rule forward_step(1)[OF assms(1) Cons.prems(2) le near band assms(2)])
  show ?case
    using Cons.IH[OF rest pos bands now] now by simp
qed

lemma forwardBy_indices:
  assumes "h \<noteq> 0" and "length steps < 2 ^ 32"
  shows "forwardBy (round64 (2 / 5)) (map (\<lambda>s. round64 (s / h)) offs) \<Longrightarrow>
         \<forall>s \<in> set offs. 0 \<le> round64 (s / h) \<and> round64 (s / h) < of_nat (length steps) \<Longrightarrow>
         forwardBy 1 (map (\<lambda>s. real_of_int (forwardIndex steps h s)) offs)"
proof (induction offs rule: induct_list012)
  case (3 s s' ss)
  from "3.prems"(1) have le: "round64 (s / h) \<le> round64 (s' / h)"
    and near: "round64 (s' / h) - round64 (s / h) \<le> round64 (2 / 5)"
    and rest: "forwardBy (round64 (2 / 5)) (map (\<lambda>s. round64 (s / h)) (s' # ss))" by simp_all
  from "3.prems"(2) have pos: "0 \<le> round64 (s / h)"
    and band: "round64 (s' / h) < of_nat (length steps)"
    and bands: "\<forall>x \<in> set (s' # ss). 0 \<le> round64 (x / h) \<and> round64 (x / h) < of_nat (length steps)"
    by simp_all
  note step = forward_step(2,3)[OF assms(1) pos le near band assms(2)]
  have "real_of_int (forwardIndex steps h s') - real_of_int (forwardIndex steps h s) \<le> 1"
    using step(2) by linarith
  then show ?case using "3.IH"(2)[OF rest bands] step(1) by simp
qed simp_all

lemma climb_remdups_adj:
  fixes ks :: "int list"
  shows "ks \<noteq> [] \<Longrightarrow> forwardBy 1 (map real_of_int ks) \<Longrightarrow>
         remdups_adj ks = [hd ks..last ks] \<and> hd ks \<le> last ks"
proof (induction ks rule: remdups_adj.induct)
  case 1
  then show ?case by simp
next
  case (2 x)
  show ?case by simp
next
  case (3 x y xs)
  from "3.prems"(2) have le: "x \<le> y" and near: "y \<le> x + 1"
    and rest: "forwardBy 1 (map real_of_int (y # xs))" by simp_all
  show ?case
  proof (cases "x = y")
    case True
    with "3.IH"(1) rest show ?thesis by simp
  next
    case False
    with le near have y: "y = x + 1" by linarith
    from "3.IH"(2)[OF False _ rest]
    have ih: "remdups_adj (y # xs) = [y..last (y # xs)]" and up: "y \<le> last (y # xs)"
      by simp_all
    have "remdups_adj (x # y # xs) = x # [x + 1..last (y # xs)]"
      using False ih y by simp
    also have "\<dots> = [x..last (y # xs)]"
      using up y by (simp add: upto_rec1[of x])
    finally show ?thesis using up y by simp
  qed
qed

text \<open>Any forward scroll: the index never exceeds the band that lies 0.4 ahead.\<close>

lemma forward_any_step:
  assumes "0 < h" and "0 \<le> s'" and "s' \<le> s" and "length steps < 2 ^ 32"
    and "\<forall>r'. rawProgress s' h = Fin r' \<longrightarrow> a \<le> \<lfloor>r' + round64 (2 / 5)\<rfloor>"
  shows "\<exists>b. newIndex steps s h (Fin (of_int a)) = Fin (of_int b) \<and> a \<le> b
            \<and> (\<forall>r. rawProgress s h = Fin r \<longrightarrow> b \<le> \<lfloor>r + round64 (2 / 5)\<rfloor>)"
proof (cases "\<exists>r. rawProgress s h = Fin r")
  case False
  then have "newIndex steps s h (Fin (of_int a)) = Fin (of_int a)"
    by (simp add: newIndex_nonfinite)
  with False show ?thesis by (intro exI[of _ a]) simp
next
  case True
  then obtain r where raw: "rawProgress s h = Fin r" by blast
  define c where "c = round64 (2 / 5)"
  have c: "0 \<le> c" "c < 1" "1 - c = round64 (3 / 5)" "c \<le> round64 (3 / 5)"
    by (simp_all add: c_def double_04 double_06)
  have hz: "h \<noteq> 0" using assms(1) by simp
  have r: "r = round64 (s / h)" and fin: "\<bar>round64 (s / h)\<bar> < 2 ^ 1024"
    using raw by (simp_all add: rawProgress_eq_Fin[OF hz])
  define r' where "r' = round64 (s' / h)"
  have q0: "0 \<le> s' / h" and q: "s' / h \<le> s / h"
    using assms(1,2,3) by (simp_all add: divide_right_mono)
  have "round64 0 \<le> r'" unfolding r'_def using q0 by (rule round64_mono)
  then have r'0: "0 \<le> r'" by simp
  have le: "r' \<le> r" unfolding r r'_def using q by (rule round64_mono)
  have r0: "0 \<le> r" using r'0 le by linarith
  have "\<bar>round64 (s' / h)\<bar> < 2 ^ 1024" using r'0 le fin by (simp add: r r'_def)
  then have "rawProgress s' h = Fin r'" by (simp add: rawProgress_eq_Fin[OF hz] r'_def)
  with assms(5) have "a \<le> \<lfloor>r' + c\<rfloor>" by (simp add: c_def)
  also have "\<lfloor>r' + c\<rfloor> \<le> \<lfloor>r + c\<rfloor>" using le by (intro floor_mono) simp
  finally have a: "a \<le> \<lfloor>r + c\<rfloor>" .
  have exact: "round64 (r - of_int \<lfloor>r\<rfloor>) = r - of_int \<lfloor>r\<rfloor>"
    unfolding r using r0 unfolding r by (rule round64_frac_exact)
  have low: "r - of_int \<lfloor>r\<rfloor> < round64 (3 / 5) \<Longrightarrow> \<lfloor>r + c\<rfloor> = \<lfloor>r\<rfloor>"
    using floor_shift_low[of c r] c by auto
  have high: "round64 (3 / 5) \<le> r - of_int \<lfloor>r\<rfloor> \<Longrightarrow> \<lfloor>r + c\<rfloor> = \<lfloor>r\<rfloor> + 1"
    using floor_shift_high[of c r] c by auto
  have some: "\<lfloor>r\<rfloor> \<le> \<lfloor>r + c\<rfloor>" using c(1) by (intro floor_mono) simp
  note new = newIndex_finite[OF raw assms(4), of "Fin (of_int a)", unfolded exact c_def[symmetric]]
  consider (up) "round64 (3 / 5) \<le> r - of_int \<lfloor>r\<rfloor>" "\<lfloor>r\<rfloor> < int (length steps) - 1"
    | (down) "r - of_int \<lfloor>r\<rfloor> < c"
    | (keep) "\<not> (round64 (3 / 5) \<le> r - of_int \<lfloor>r\<rfloor> \<and> \<lfloor>r\<rfloor> < int (length steps) - 1)"
             "\<not> r - of_int \<lfloor>r\<rfloor> < c"
    by blast
  then have "\<exists>b. newIndex steps s h (Fin (of_int a)) = Fin (of_int b) \<and> a \<le> b \<and> b \<le> \<lfloor>r + c\<rfloor>"
  proof cases
    case up
    then have "newIndex steps s h (Fin (of_int a)) = Fin (of_int (\<lfloor>r\<rfloor> + 1))"
      by (simp only: new if_True simp_thms)
    moreover have "\<lfloor>r + c\<rfloor> = \<lfloor>r\<rfloor> + 1" using up(1) by (rule high)
    ultimately show ?thesis using a by (intro exI[of _ "\<lfloor>r\<rfloor> + 1"]) simp
  next
    case down
    then have small: "r - of_int \<lfloor>r\<rfloor> < round64 (3 / 5)" using c(4) by linarith
    then have "newIndex steps s h (Fin (of_int a)) = Fin (of_int \<lfloor>r\<rfloor>)"
      using down by (simp add: new)
    moreover have "\<lfloor>r + c\<rfloor> = \<lfloor>r\<rfloor>" using small by (rule low)
    ultimately show ?thesis using a by (intro exI[of _ "\<lfloor>r\<rfloor>"]) simp
  next
    case keep
    then have "newIndex steps s h (Fin (of_int a)) = Fin (of_int a)"
      by (simp only: new if_False simp_thms)
    then show ?thesis using a by (intro exI[of _ a]) simp
  qed
  then show ?thesis using raw by (auto simp: c_def)
qed

lemma forward_any_trace:
  assumes "0 < h" and "length steps < 2 ^ 32"
  shows "sorted (s0 # ss) \<Longrightarrow> 0 \<le> s0 \<Longrightarrow> activeIndex (state rt) = Fin (of_int a) \<Longrightarrow>
         \<forall>r'. rawProgress s0 h = Fin r' \<longrightarrow> a \<le> \<lfloor>r' + round64 (2 / 5)\<rfloor> \<Longrightarrow>
         \<exists>ks. map (activeIndex \<circ> state) (scrollTrace steps h ss rt)
               = map (\<lambda>k. Fin (of_int k)) ks \<and> sorted (a # ks)"
proof (induction ss arbitrary: s0 rt a)
  case Nil
  show ?case by (intro exI[of _ "[]"]) simp
next
  case (Cons s ss)
  from Cons.prems(1) have le: "s0 \<le> s" and rest: "sorted (s # ss)" by simp_all
  have s0: "0 \<le> s" using le Cons.prems(2) by linarith
  from forward_any_step[OF assms(1) Cons.prems(2) le assms(2) Cons.prems(4)]
  obtain b where new: "newIndex steps s h (Fin (of_int a)) = Fin (of_int b)" and ab: "a \<le> b"
    and inv: "\<forall>r. rawProgress s h = Fin r \<longrightarrow> b \<le> \<lfloor>r + round64 (2 / 5)\<rfloor>" by blast
  have now: "activeIndex (state (handleScroll steps s h rt)) = Fin (of_int b)"
    by (simp add: handleScroll_activeIndex Cons.prems(3) new)
  from Cons.IH[OF rest s0 now inv]
  obtain ks where tr: "map (activeIndex \<circ> state) (scrollTrace steps h ss (handleScroll steps s h rt))
               = map (\<lambda>k. Fin (of_int k)) ks" and so: "sorted (b # ks)" by blast
  have "sorted (a # b # ks)" using ab so by force
  moreover have "map (activeIndex \<circ> state) (scrollTrace steps h (s # ss) rt)
                 = map (\<lambda>k. Fin (of_int k)) (b # ks)"
    using tr now by (simp add: comp_def)
  ultimately show ?case by blast
qed

text \<open>
  C4, as stated, fails: per-event deltas below one viewport height, with no band left
  out, are not enough. With two steps and a viewport height of 1000 the offsets 0, 550,
  1450, 1999 only increase, by at most 900, and fall into band 0, band 0, band 1 and
  band 1; yet every one of them lies in a zone where the index is retained, and
  \<open>activeIndex\<close> stays 0: index 1 is never visited.
\<close>

theorem coarse_scroll_stalls:
  "forwardBy 900 [0, 550, 1450, 1999]
   \<and> sectionIndex 0 1000 = Fin 0 \<and> sectionIndex 550 1000 = Fin 0
   \<and> sectionIndex 1450 1000 = Fin 1 \<and> sectionIndex 1999 1000 = Fin 1
   \<and> map (activeIndex \<circ> state) (scrollTrace twoSteps 1000 [0, 550, 1450, 1999] mount)
       = [Fin 0, Fin 0, Fin 0, Fin 0]"
proof -
  have "sectionIndex 0 1000 = Fin 0" using section_eval(1)[of 1000 0 0] by simp
  moreover have "sectionIndex 550 1000 = Fin 0"
    using section_eval(1)[of 1000 550 "2476979795053773 / 4503599627370496"]
    by (simp add: round64_11_20)
  moreover have "sectionIndex 1450 1000 = Fin 1"
    using section_eval(1)[of 1000 1450 "6530219459687219 / 4503599627370496"]
    by (simp add: round64_29_20)
  moreover have "sectionIndex 1999 1000 = Fin 1"
    using section_eval(1)[of 1000 1999 "4501347827556811 / 2251799813685248"]
    by (simp add: round64_1999_1000)
  moreover have "map (activeIndex \<circ> state)
       (scrollTrace twoSteps 1000 [0, 550, 1450, 1999] mount) = [Fin 0, Fin 0, Fin 0, Fin 0]"
    by (simp add: handleScroll_activeIndex ni_0 ni_550 ni_1450 ni_1999)
  ultimately show ?thesis by simp
qed

text \<open>
  C4, amended: let the offsets start at 0 and be processed from the mount state. If
  they never decrease, \<open>activeIndex\<close> never decreases, whatever the deltas. If moreover
  the \<open>rawProgress\<close> that the handler computes grows by at most 0.4 (the double) per
  event, stays below \<open>N\<close> and reaches \<open>N - 1\<close>, then the values of \<open>activeIndex\<close> without
  their repetitions are exactly \<open>0, 1, \<dots>, N - 1\<close>: each index is visited once, in
  order; and \<open>activeIndex\<close> changes exactly at an event whose \<open>sectionIndex\<close> is the
  current index, not the last one, with \<open>sectionProgress \<ge> 0.6\<close> (the double), and then
  it grows by one.
\<close>

theorem forward_scroll_visits_each_step:
  fixes steps :: "Step list" and h :: real and ss :: "real list"
  defines "offs \<equiv> 0 # ss"
  defines "idx \<equiv> map (activeIndex \<circ> state) (scrollTrace steps h offs mount)"
  defines "raws \<equiv> map (\<lambda>s. round64 (s / h)) offs"
  assumes "0 < h" and "length steps < 2 ^ 32"
  shows "(sorted offs \<longrightarrow> sorted_wrt (\<lambda>a b. \<not> js_lt b a) idx)
       \<and> (steps \<noteq> [] \<and> forwardBy (round64 (2 / 5)) raws
            \<and> (\<forall>r \<in> set raws. r < of_nat (length steps))
            \<and> of_nat (length steps) - 1 \<le> last raws \<longrightarrow>
            remdups_adj idx = map (\<lambda>k. Fin (of_int k)) [0..int (length steps) - 1]
          \<and> (\<forall>j. Suc j < length offs \<longrightarrow>
               ((idx ! Suc j \<noteq> idx ! j)
                 = (sectionIndex (offs ! Suc j) h = idx ! j
                    \<and> js_ge (sectionProgress (offs ! Suc j) h) threshold
                    \<and> idx ! j \<noteq> Fin (of_int (int (length steps) - 1))))
             \<and> (idx ! Suc j \<noteq> idx ! j \<longrightarrow> idx ! Suc j = js_add (idx ! j) (Fin 1))))"
proof (intro conjI impI)
  have hz: "h \<noteq> 0" using assms(4) by simp
  assume "sorted offs"
  then have so: "sorted (0 # offs)" by (simp add: offs_def)
  have start: "activeIndex (state mount) = Fin (of_int 0)"
    by (simp add: mount_def initialState_def)
  have "rawProgress 0 h = Fin 0" using rawProgress_small[OF hz, of 0] by simp
  then have inv: "\<forall>r'. rawProgress 0 h = Fin r' \<longrightarrow> 0 \<le> \<lfloor>r' + round64 (2 / 5)\<rfloor>"
    by (simp add: double_04)
  from forward_any_trace[OF assms(4,5) so _ start inv]
  obtain ks where idx: "idx = map (\<lambda>k. Fin (of_int k)) ks" and ks: "sorted (0 # ks)"
    unfolding idx_def by auto
  have "sorted_wrt (\<lambda>a b. \<not> js_lt (Fin (of_int b)) (Fin (of_int a))) ks"
    using ks by (simp add: not_less)
  then show "sorted_wrt (\<lambda>a b. \<not> js_lt b a) idx"
    by (simp add: idx sorted_wrt_map)
next
  let ?F = "\<lambda>s. Fin (of_int (forwardIndex steps h s))"
  let ?q = "\<lambda>s. round64 (s / h)"
  have hz: "h \<noteq> 0" using assms(4) by simp
  assume hyp: "steps \<noteq> [] \<and> forwardBy (round64 (2 / 5)) raws
            \<and> (\<forall>r \<in> set raws. r < of_nat (length steps))
            \<and> of_nat (length steps) - 1 \<le> last raws"
  then have ne: "steps \<noteq> []" and gentle: "forwardBy (round64 (2 / 5)) (map ?q offs)"
    and band: "\<forall>s \<in> set offs. ?q s < of_nat (length steps)"
    and reach: "of_nat (length steps) - 1 \<le> last (map ?q offs)"
    by (simp_all add: raws_def)
  have d04: "0 \<le> round64 (2 / 5)" by (simp add: double_04)
  have q0: "?q 0 = 0" by simp
  have first: "forwardBy (round64 (2 / 5)) (map ?q (0 # offs))"
    using gentle d04 by (simp add: offs_def)
  have start: "activeIndex (state mount) = ?F 0"
    using ne by (simp add: mount_def initialState_def forwardIndex_zero)
  have idx: "idx = map ?F offs"
    unfolding idx_def by (rule forward_trace[OF hz assms(5) first _ band start]) simp
  have "\<forall>y \<in> set (map ?q ss). ?q 0 \<le> y"
    using gentle unfolding offs_def list.map by (rule forwardBy_ge_head)
  then have nonneg: "\<forall>s \<in> set offs. 0 \<le> ?q s" by (simp add: offs_def)
  define ks where "ks = map (forwardIndex steps h) offs"
  have idx_ks: "idx = map (\<lambda>k. Fin (of_int k)) ks"
    by (simp add: idx ks_def)
  have climb: "forwardBy 1 (map real_of_int ks)"
    using forwardBy_indices[OF hz assms(5) gentle] nonneg band by (simp add: ks_def comp_def)
  have nonempty: "ks \<noteq> []" by (simp add: ks_def offs_def)
  have hd_ks: "hd ks = 0"
    using ne by (simp add: ks_def offs_def forwardIndex_zero)
  have on: "offs \<noteq> []" by (simp add: offs_def)
  have "of_nat (length steps) - 1 \<le> ?q (last offs)" using reach on by (simp add: last_map)
  then have "real_of_int (int (length steps) - 1) \<le> ?q (last offs) + round64 (2 / 5)"
    using d04 by simp
  then have "int (length steps) - 1 \<le> \<lfloor>?q (last offs) + round64 (2 / 5)\<rfloor>"
    by (simp only: le_floor_iff)
  then have "forwardIndex steps h (last offs) = int (length steps) - 1"
    by (simp add: forwardIndex_def)
  then have last_ks: "last ks = int (length steps) - 1"
    using on by (simp add: ks_def last_map)
  have inj: "inj (\<lambda>k::int. Fin (of_int k))" by (simp add: inj_def)
  show "remdups_adj idx = map (\<lambda>k. Fin (of_int k)) [0..int (length steps) - 1]"
    using climb_remdups_adj[OF nonempty climb]
    by (simp add: idx_ks remdups_adj_map_injective[OF inj] hd_ks last_ks)
  show "\<forall>j. Suc j < length offs \<longrightarrow>
               ((idx ! Suc j \<noteq> idx ! j)
                 = (sectionIndex (offs ! Suc j) h = idx ! j
                    \<and> js_ge (sectionProgress (offs ! Suc j) h) threshold
                    \<and> idx ! j \<noteq> Fin (of_int (int (length steps) - 1))))
             \<and> (idx ! Suc j \<noteq> idx ! j \<longrightarrow> idx ! Suc j = js_add (idx ! j) (Fin 1))"
  proof (intro allI impI)
    fix j assume j: "Suc j < length offs"
    define s s' where "s = offs ! Suc j" and "s' = offs ! j"
    have le: "?q s' \<le> ?q s" and near: "?q s - ?q s' \<le> round64 (2 / 5)"
      using forwardBy_nth[OF gentle, of j] j by (simp_all add: s_def s'_def)
    have bs: "?q s < of_nat (length steps)" using band j by (simp add: s_def)
    have ps': "0 \<le> ?q s'" using nonneg j by (simp add: s'_def)
    have ps: "0 \<le> ?q s" using ps' le by linarith
    note step = forward_step[OF hz ps' le near bs assms(5)]
    have now: "idx ! Suc j = ?F s" and before: "idx ! j = ?F s'"
      using j by (simp_all add: idx s_def s'_def)
    have small: "?q s \<le> 2 ^ 53"
    proof -
      have "real (length steps) < real (2 ^ 32)" using assms(5) by (simp only: of_nat_less_iff)
      then show ?thesis using bs by simp
    qed
    note sec = section_eval[OF hz refl ps small]
    have "idx ! Suc j \<noteq> idx ! j \<longleftrightarrow> forwardIndex steps h s \<noteq> forwardIndex steps h s'"
      by (simp add: now before)
    also have "\<dots> \<longleftrightarrow> \<lfloor>?q s\<rfloor> = forwardIndex steps h s'
           \<and> round64 (3 / 5) \<le> ?q s - of_int \<lfloor>?q s\<rfloor>
           \<and> forwardIndex steps h s' \<noteq> int (length steps) - 1"
      by (rule step(4))
    also have "\<dots> \<longleftrightarrow> sectionIndex s h = idx ! j \<and> js_ge (sectionProgress s h) threshold
           \<and> idx ! j \<noteq> Fin (of_int (int (length steps) - 1))"
    proof -
      have A: "sectionIndex s h = idx ! j \<longleftrightarrow> \<lfloor>?q s\<rfloor> = forwardIndex steps h s'"
        by (simp add: sec(1) before)
      have B: "js_ge (sectionProgress s h) threshold
               \<longleftrightarrow> round64 (3 / 5) \<le> ?q s - of_int \<lfloor>?q s\<rfloor>"
        by (simp add: sec(2) js_ge_def threshold_value not_less)
      have C: "idx ! j \<noteq> Fin (of_int (int (length steps) - 1))
               \<longleftrightarrow> forwardIndex steps h s' \<noteq> int (length steps) - 1"
        unfolding before by (simp only: jsnum.inject of_int_eq_iff)
      show ?thesis by (simp only: A B C)
    qed
    finally have iff: "(idx ! Suc j \<noteq> idx ! j)
                = (sectionIndex (offs ! Suc j) h = idx ! j
                   \<and> js_ge (sectionProgress (offs ! Suc j) h) threshold
                   \<and> idx ! j \<noteq> Fin (of_int (int (length steps) - 1)))"
      by (simp only: s_def)
    have up: "idx ! Suc j = js_add (idx ! j) (Fin 1)" if "idx ! Suc j \<noteq> idx ! j"
    proof -
      from that have "forwardIndex steps h s \<noteq> forwardIndex steps h s'"
        by (simp add: now before)
      with step(2,3) have eq: "forwardIndex steps h s = forwardIndex steps h s' + 1" by linarith
      have "forwardIndex steps h s \<le> int (length steps) - 1" by (simp add: forwardIndex_def)
      moreover have "0 \<le> forwardIndex steps h s'"
      proof -
        have "0 \<le> \<lfloor>?q s' + round64 (2 / 5)\<rfloor>" using ps' d04 by simp
        then show ?thesis using ne by (cases steps) (simp_all add: forwardIndex_def)
      qed
      ultimately have "\<bar>forwardIndex steps h s' + 1\<bar> \<le> 2 ^ 53"
        using eq assms(5) by simp
      from js_round_of_int[OF this] show ?thesis by (simp add: now before eq)
    qed
    show "((idx ! Suc j \<noteq> idx ! j)
                 = (sectionIndex (offs ! Suc j) h = idx ! j
                    \<and> js_ge (sectionProgress (offs ! Suc j) h) threshold
                    \<and> idx ! j \<noteq> Fin (of_int (int (length steps) - 1))))
             \<and> (idx ! Suc j \<noteq> idx ! j \<longrightarrow> idx ! Suc j = js_add (idx ! j) (Fin 1))"
      using iff up by blast
  qed
qed

text \<open>
  Witness of the amended C4, with three steps and a viewport height of 1000: the offsets
  0, 300, 600, 1000, 1400, 1700, 2000 give the indices 0, 0, 1, 1, 1, 2, 2. The index
  changes at offset 600, in band 0 with \<open>sectionProgress\<close> at the double 0.6, and not at
  offset 1000, in band 1 with \<open>sectionProgress\<close> 0.
\<close>

theorem forward_scroll_visits_each_step_witness:
  "(0::real) < 1000 \<and> length threeSteps < 2 ^ 32
   \<and> sorted [0, 300, 600, 1000, 1400, 1700, 2000 :: real]
   \<and> forwardBy (round64 (2 / 5))
        (map (\<lambda>s. round64 (s / 1000)) [0, 300, 600, 1000, 1400, 1700, 2000])
   \<and> map (activeIndex \<circ> state)
        (scrollTrace threeSteps 1000 [0, 300, 600, 1000, 1400, 1700, 2000] mount)
       = [Fin 0, Fin 0, Fin 1, Fin 1, Fin 1, Fin 2, Fin 2]
   \<and> remdups_adj (map (activeIndex \<circ> state)
        (scrollTrace threeSteps 1000 [0, 300, 600, 1000, 1400, 1700, 2000] mount))
       = [Fin 0, Fin 1, Fin 2]
   \<and> sorted_wrt (\<lambda>a b. \<not> js_lt b a) (map (activeIndex \<circ> state)
        (scrollTrace threeSteps 1000 [0, 300, 600, 1000, 1400, 1700, 2000] mount))
   \<and> sectionIndex 600 1000 = Fin 0 \<and> js_ge (sectionProgress 600 1000) threshold
   \<and> \<not> (sectionIndex 1000 1000 = Fin 1 \<and> js_ge (sectionProgress 1000 1000) threshold
          \<and> Fin 1 \<noteq> Fin (of_int (int (length threeSteps) - 1)))"
proof -
  let ?ss = "[300, 600, 1000, 1400, 1700, 2000 :: real]"
  have b: "(0::real) < 1000" by simp
  have len: "length threeSteps < 2 ^ 32" by (simp add: threeSteps_def)
  have so: "sorted (0 # ?ss)" by simp
  have raws: "map (\<lambda>s. round64 (s / 1000)) (0 # ?ss)
     = [0, 5404319552844595 / 18014398509481984, 5404319552844595 / 9007199254740992, 1,
        3152519739159347 / 2251799813685248, 7656119366529843 / 4503599627370496, 2]"
    by (simp add: round64_3_10 double_06 round64_7_5 round64_17_10)
  have gentle: "forwardBy (round64 (2 / 5)) (map (\<lambda>s. round64 (s / 1000)) (0 # ?ss))"
    unfolding raws by (simp add: double_04)
  have hyp: "threeSteps \<noteq> []
     \<and> forwardBy (round64 (2 / 5)) (map (\<lambda>s. round64 (s / 1000)) (0 # ?ss))
     \<and> (\<forall>r \<in> set (map (\<lambda>s. round64 (s / 1000)) (0 # ?ss)). r < of_nat (length threeSteps))
     \<and> of_nat (length threeSteps) - 1 \<le> last (map (\<lambda>s. round64 (s / 1000)) (0 # ?ss))"
    using gentle unfolding raws by (simp add: threeSteps_def)
  have upto: "[0..int (length threeSteps) - 1] = [0, 1, 2]"
    by (simp add: threeSteps_def upto_rec1)
  have trace: "map (activeIndex \<circ> state) (scrollTrace threeSteps 1000 (0 # ?ss) mount)
       = [Fin 0, Fin 0, Fin 1, Fin 1, Fin 1, Fin 2, Fin 2]"
    by (simp add: handleScroll_activeIndex ni3_0 ni3_300 ni3_600 ni3_1000 ni3_1400 ni3_1700
        ni3_2000)
  note main = forward_scroll_visits_each_step[OF b len, of ?ss]
  have mono: "sorted_wrt (\<lambda>a b. \<not> js_lt b a) (map (activeIndex \<circ> state)
        (scrollTrace threeSteps 1000 (0 # ?ss) mount))"
    using main[THEN conjunct1, THEN mp, OF so] .
  note rest = main[THEN conjunct2, THEN mp, OF hyp]
  have visits: "remdups_adj (map (activeIndex \<circ> state)
        (scrollTrace threeSteps 1000 (0 # ?ss) mount)) = [Fin 0, Fin 1, Fin 2]"
    using rest[THEN conjunct1] unfolding upto by simp
  note at = rest[THEN conjunct2, rule_format, THEN conjunct1, unfolded trace]
  have moves: "sectionIndex 600 1000 = Fin 0 \<and> js_ge (sectionProgress 600 1000) threshold"
    using at[of 1] by simp
  have stays: "\<not> (sectionIndex 1000 1000 = Fin 1 \<and> js_ge (sectionProgress 1000 1000) threshold
          \<and> Fin 1 \<noteq> Fin (of_int (int (length threeSteps) - 1)))"
    using at[of 2] by simp
  show ?thesis using b len so gentle trace visits mono moves stays by blast
qed

end
